theory Spec2Isabelle
  imports Main
begin

section \<open>The event mixin of onoff.py\<close>

text \<open>
  \<^verbatim>\<open>OnOffMixin\<close> keeps one dictionary, \<^verbatim>\<open>_on_off_events\<close>, from event names to
  lists of callback objects. A callback object is itself a small dictionary with the
  keys \<^verbatim>\<open>'callback'\<close>, \<^verbatim>\<open>'times'\<close> and \<^verbatim>\<open>'calls'\<close>; it is a mutable Python object,
  shared between the list stored in the dictionary and any list that \<^verbatim>\<open>trigger\<close> is
  iterating over. The model therefore keeps the callback objects in a store, and the
  lists hold references into it.

  A callback is an opaque callable. It is modelled by an identifier of type \<open>'cb\<close>
  (compared with \<open>=\<close>, as Python compares callables with \<^verbatim>\<open>!=\<close>), and calling it
  appends the pair of the callback and its arguments to a trace. Whether a call
  returns or raises is given by a behaviour, which may depend on the calls made so
  far. In this first model a callback does not call back into the mixin object. The
  second model, in the section on callbacks that call back, lets a callback call the
  methods of the object it is registered with; its names end in \<open>_re\<close>.
\<close>

type_synonym addr = nat

record 'cb callback_obj =
  callback :: 'cb
  times_limit :: "int option"   \<comment> \<open>the key \<^verbatim>\<open>'times'\<close>; \<open>None\<close> is Python's \<^verbatim>\<open>None\<close>\<close>
  calls :: int

datatype events = Str string | Lst "string list"

datatype error = KeyError string | Raised string

type_synonym ('cb, 'a) behaviour = "('cb \<times> 'a) list \<Rightarrow> 'cb \<Rightarrow> 'a \<Rightarrow> error option"

record ('cb, 'a) mixin =
  on_off_events :: "string \<rightharpoonup> addr list"
  heap :: "addr \<rightharpoonup> 'cb callback_obj"
  nxt :: addr
  trace :: "('cb \<times> 'a) list"

text \<open>
  A method either returns, leaving the object in a new state, or raises; the object
  keeps whatever was written to it before the exception.
\<close>

type_synonym ('cb, 'a) result = "(error \<times> ('cb, 'a) mixin) + ('cb, 'a) mixin"

text \<open>
  \<^verbatim>\<open>__init__\<close> binds \<^verbatim>\<open>_on_off_events\<close> to an empty dictionary. It also sets an attribute
  \<^verbatim>\<open>exc_info\<close> that no method reads or writes, which the model leaves out.
\<close>

definition init :: "('cb, 'a) mixin" where
  "init = \<lparr>on_off_events = Map.empty, heap = Map.empty, nxt = 0, trace = []\<rparr>"

text \<open>\<^verbatim>\<open>if isinstance(events, str): events = [events]\<close>\<close>

fun normalise :: "events \<Rightarrow> string list" where
  "normalise (Str e) = [e]"
| "normalise (Lst es) = es"

text \<open>
  \<^verbatim>\<open>self._on_off_events.setdefault(event, []).append(callback_obj.copy())\<close>:
  every event gets a copy of its own, a fresh object.
\<close>

definition setdefault_append :: "string \<Rightarrow> 'cb callback_obj \<Rightarrow> ('cb, 'a) mixin \<Rightarrow> ('cb, 'a) mixin" where
  "setdefault_append event obj s =
     s\<lparr>on_off_events := (on_off_events s)
          (event \<mapsto> (case on_off_events s event of None \<Rightarrow> [] | Some xs \<Rightarrow> xs) @ [nxt s]),
       heap := (heap s)(nxt s \<mapsto> obj),
       nxt := Suc (nxt s)\<rparr>"

fun on_loop :: "string list \<Rightarrow> 'cb callback_obj \<Rightarrow> ('cb, 'a) mixin \<Rightarrow> ('cb, 'a) mixin" where
  "on_loop [] obj s = s"
| "on_loop (event # rest) obj s = on_loop rest obj (setdefault_append event obj s)"

definition on :: "events \<Rightarrow> 'cb \<Rightarrow> int option \<Rightarrow> ('cb, 'a) mixin \<Rightarrow> ('cb, 'a) mixin" where
  "on evs cb tm s =
     on_loop (normalise evs) \<lparr>callback = cb, times_limit = tm, calls = 0\<rparr> s"

text \<open>
  \<^verbatim>\<open>off\<close> rebinds the dictionary entry to a new, filtered list; the old list object
  is left as it was. Reading \<^verbatim>\<open>self._on_off_events[event]\<close> for a name that is not a
  key raises \<^verbatim>\<open>KeyError\<close>.
\<close>

text \<open>
  A Python reference always leads to an object. In the model a reference is followed
  with \<open>the\<close>; the store invariant below shows that every reference held by a list is
  allocated, in every state that a client can reach.
\<close>

definition deref :: "('cb, 'a) mixin \<Rightarrow> addr \<Rightarrow> 'cb callback_obj" where
  "deref s a = the (heap s a)"

fun off_loop :: "string list \<Rightarrow> 'cb \<Rightarrow> ('cb, 'a) mixin \<Rightarrow> ('cb, 'a) result" where
  "off_loop [] cb s = Inr s"
| "off_loop (event # rest) cb s =
     (case on_off_events s event of
        None \<Rightarrow> Inl (KeyError event, s)
      | Some xs \<Rightarrow>
          off_loop rest cb
            (s\<lparr>on_off_events := (on_off_events s)
                 (event \<mapsto> filter (\<lambda>a. callback (deref s a) \<noteq> cb) xs)\<rparr>))"

definition off :: "events \<Rightarrow> 'cb \<Rightarrow> ('cb, 'a) mixin \<Rightarrow> ('cb, 'a) result" where
  "off evs cb s = off_loop (normalise evs) cb s"

definition once :: "events \<Rightarrow> 'cb \<Rightarrow> ('cb, 'a) mixin \<Rightarrow> ('cb, 'a) mixin" where
  "once evs cb s = on evs cb (Some 1) s"

text \<open>
  The inner loop of \<^verbatim>\<open>trigger\<close> runs over the list object that was the entry of
  \<^verbatim>\<open>event\<close> when the loop started. The call comes first; if it raises, the
  exception leaves \<^verbatim>\<open>trigger\<close> at once. Otherwise \<^verbatim>\<open>'calls'\<close> is incremented in the
  object, and if it now equals \<^verbatim>\<open>'times'\<close> the callback is taken off the event with
  \<^verbatim>\<open>self.off(event, callback_obj['callback'])\<close>. An integer never equals \<^verbatim>\<open>None\<close>.
  The \<^verbatim>\<open>logging.debug\<close> line at the start of \<^verbatim>\<open>trigger\<close> has no effect on the object and
  is left out.
\<close>

fun trigger_pass ::
  "('cb, 'a) behaviour \<Rightarrow> string \<Rightarrow> 'a \<Rightarrow> addr list \<Rightarrow> ('cb, 'a) mixin \<Rightarrow> ('cb, 'a) result" where
  "trigger_pass beh event args [] s = Inr s"
| "trigger_pass beh event args (a # rest) s =
     (let obj = deref s a;
          s1 = s\<lparr>trace := trace s @ [(callback obj, args)]\<rparr>
      in case beh (trace s) (callback obj) args of
           Some err \<Rightarrow> Inl (err, s1)
         | None \<Rightarrow>
             (let obj' = obj\<lparr>calls := calls obj + 1\<rparr>;
                  s2 = s1\<lparr>heap := (heap s1)(a \<mapsto> obj')\<rparr>
              in if Some (calls obj') = times_limit obj'
                 then (case off (Str event) (callback obj') s2 of
                         Inl x \<Rightarrow> Inl x
                       | Inr s3 \<Rightarrow> trigger_pass beh event args rest s3)
                 else trigger_pass beh event args rest s2))"

fun trigger_loop ::
  "('cb, 'a) behaviour \<Rightarrow> string list \<Rightarrow> 'a \<Rightarrow> ('cb, 'a) mixin \<Rightarrow> ('cb, 'a) result" where
  "trigger_loop beh [] args s = Inr s"
| "trigger_loop beh (event # rest) args s =
     (case on_off_events s event of
        None \<Rightarrow> trigger_loop beh rest args s
      | Some xs \<Rightarrow>
          (case trigger_pass beh event args xs s of
             Inl x \<Rightarrow> Inl x
           | Inr s' \<Rightarrow> trigger_loop beh rest args s'))"

definition trigger ::
  "('cb, 'a) behaviour \<Rightarrow> events \<Rightarrow> 'a \<Rightarrow> ('cb, 'a) mixin \<Rightarrow> ('cb, 'a) result" where
  "trigger beh evs args s = trigger_loop beh (normalise evs) args s"

subsection \<open>Clients\<close>

text \<open>
  A client makes method calls one after the other on an object created by
  \<^verbatim>\<open>__init__\<close>. A client that catches an exception goes on with the object as the
  failed call left it.
\<close>

datatype ('cb, 'a) call =
    On events 'cb "int option"
  | Off events 'cb
  | Once events 'cb
  | Trigger events 'a

fun step :: "('cb, 'a) behaviour \<Rightarrow> ('cb, 'a) call \<Rightarrow> ('cb, 'a) mixin \<Rightarrow> ('cb, 'a) result" where
  "step beh (On evs cb tm) s = Inr (on evs cb tm s)"
| "step beh (Off evs cb) s = off evs cb s"
| "step beh (Once evs cb) s = Inr (once evs cb s)"
| "step beh (Trigger evs args) s = trigger beh evs args s"

fun state_of :: "('cb, 'a) result \<Rightarrow> ('cb, 'a) mixin" where
  "state_of (Inl (err, s)) = s"
| "state_of (Inr s) = s"

fun run :: "('cb, 'a) behaviour \<Rightarrow> ('cb, 'a) call list \<Rightarrow> ('cb, 'a) mixin \<Rightarrow> ('cb, 'a) mixin" where
  "run beh [] s = s"
| "run beh (c # cs) s = run beh cs (state_of (step beh c s))"

text \<open>The callback objects registered for an event, in the order of the list.\<close>

definition listeners :: "('cb, 'a) mixin \<Rightarrow> string \<Rightarrow> addr list" where
  "listeners s event = (case on_off_events s event of None \<Rightarrow> [] | Some xs \<Rightarrow> xs)"

section \<open>What the properties are stated with\<close>

text \<open>
  The call counter is compared with \<^verbatim>\<open>'times'\<close> right after it has been incremented.
  An object has reached its limit when the two are equal and the counter has been
  incremented at least once.
\<close>

definition reached_limit :: "'cb callback_obj \<Rightarrow> bool" where
  "reached_limit obj \<longleftrightarrow> Some (calls obj) = times_limit obj \<and> 0 < calls obj"

text \<open>
  The calls that a pass over a list of objects makes when none of them raises, and
  the condition that they all return: each call sees the trace of the calls before it.
\<close>

definition invocations :: "('cb, 'a) mixin \<Rightarrow> 'a \<Rightarrow> addr list \<Rightarrow> ('cb \<times> 'a) list" where
  "invocations s args xs = map (\<lambda>a. (callback (deref s a), args)) xs"

fun returns_all :: "('cb, 'a) behaviour \<Rightarrow> ('cb \<times> 'a) list \<Rightarrow> ('cb \<times> 'a) list \<Rightarrow> bool" where
  "returns_all beh h [] = True"
| "returns_all beh h (c # cs) = (beh h (fst c) (snd c) = None \<and> returns_all beh (h @ [c]) cs)"

text \<open>
  An object \<open>a\<close> of the event \<open>e\<close> is struck in the state \<open>s\<close>, with respect to the
  lists of an earlier state \<open>s0\<close>, when an object listed for \<open>e\<close> in \<open>s0\<close> that has
  the same callback as \<open>a\<close> has reached its limit in \<open>s\<close>. The object \<open>a\<close> may be
  that object itself.
\<close>

definition struck :: "('cb, 'a) mixin \<Rightarrow> ('cb, 'a) mixin \<Rightarrow> string \<Rightarrow> addr \<Rightarrow> bool" where
  "struck s0 s e a \<longleftrightarrow>
     (\<exists>b\<in>set (listeners s0 e).
        callback (deref s0 b) = callback (deref s0 a) \<and> reached_limit (deref s b))"

text \<open>
  A limit that is zero or negative, compared with no limit at all: the client in which
  every such \<^verbatim>\<open>times\<close> argument is replaced by \<^verbatim>\<open>None\<close>.
\<close>

definition erase :: "int option \<Rightarrow> int option" where
  "erase tm = (case tm of None \<Rightarrow> None | Some n \<Rightarrow> if n \<le> 0 then None else Some n)"

fun unbounded :: "('cb, 'a) call \<Rightarrow> ('cb, 'a) call" where
  "unbounded (On evs cb tm) = On evs cb (erase tm)"
| "unbounded (Off evs cb) = Off evs cb"
| "unbounded (Once evs cb) = Once evs cb"
| "unbounded (Trigger evs args) = Trigger evs args"

text \<open>What each call of a client raised, if anything.\<close>

fun raised :: "('cb, 'a) result \<Rightarrow> error option" where
  "raised (Inl (err, s)) = Some err"
| "raised (Inr s) = None"

fun outcomes :: "('cb, 'a) behaviour \<Rightarrow> ('cb, 'a) call list \<Rightarrow> ('cb, 'a) mixin \<Rightarrow> error option list" where
  "outcomes beh [] s = []"
| "outcomes beh (c # cs) s = raised (step beh c s) # outcomes beh cs (state_of (step beh c s))"

text \<open>
  Two behaviours for the examples: no call raises; the calls of one callback raise.
\<close>

definition quiet :: "(nat, string) behaviour" where
  "quiet h c a = None"

definition raises_on :: "nat \<Rightarrow> (nat, string) behaviour" where
  "raises_on k h c a = (if c = k then Some (Raised ''boom'') else None)"

section \<open>What the proofs are stated with\<close>

text \<open>
  A round of the inner loop of \<^verbatim>\<open>trigger\<close> whose call returns changes the state in
  three steps: the call is recorded, the counter is incremented, and, if the limit is
  reached, \<^verbatim>\<open>off\<close> rebinds the list of the event.
\<close>

definition called :: "('cb, 'a) mixin \<Rightarrow> addr \<Rightarrow> 'a \<Rightarrow> ('cb, 'a) mixin" where
  "called s a args = s\<lparr>trace := trace s @ [(callback (deref s a), args)]\<rparr>"

definition counted :: "('cb, 'a) mixin \<Rightarrow> addr \<Rightarrow> 'a \<Rightarrow> ('cb, 'a) mixin" where
  "counted s a args =
     (called s a args)\<lparr>heap := (heap s)(a \<mapsto> (deref s a)\<lparr>calls := calls (deref s a) + 1\<rparr>)\<rparr>"

definition pass_round :: "('cb, 'a) mixin \<Rightarrow> string \<Rightarrow> addr \<Rightarrow> 'a \<Rightarrow> ('cb, 'a) mixin" where
  "pass_round s e a args =
     (if Some (calls (deref s a) + 1) = times_limit (deref s a)
      then state_of (off (Str e) (callback (deref s a)) (counted s a args))
      else counted s a args)"

definition round_of ::
  "('cb, 'a) mixin \<Rightarrow> string \<Rightarrow> addr \<Rightarrow> 'a \<Rightarrow> ('cb, 'a) mixin \<Rightarrow> bool" where
  "round_of s e a args s2 \<longleftrightarrow>
     trace s2 = trace s @ [(callback (deref s a), args)] \<and>
     (\<forall>b. deref s2 b = deref (counted s a args) b) \<and>
     nxt s2 = nxt s \<and> heap s2 = heap (counted s a args) \<and>
     (\<forall>e'. e' \<noteq> e \<longrightarrow> listeners s2 e' = listeners s e') \<and>
     (if Some (calls (deref s a) + 1) = times_limit (deref s a)
      then listeners s2 e = filter (\<lambda>b. callback (deref s b) \<noteq> callback (deref s a)) (listeners s e)
      else listeners s2 e = listeners s e) \<and>
     (on_off_events s2 e = None) = (on_off_events s e = None)"

text \<open>
  The store invariant. The lists hold distinct references to allocated objects, lists
  of different events share no object (\<^verbatim>\<open>on\<close> makes a copy for each event), counters
  are not negative and stay within a positive limit, and no listed object has reached
  its limit. All references that the model follows with \<open>deref\<close> are therefore
  allocated. Between the increment and the \<^verbatim>\<open>off\<close> that follows it, the object just
  called is the one exception to the last condition.
\<close>

definition wf :: "('cb, 'a) mixin \<Rightarrow> bool" where
  "wf s \<longleftrightarrow>
     (\<forall>e. distinct (listeners s e)) \<and>
     (\<forall>e. \<forall>a\<in>set (listeners s e). a < nxt s) \<and>
     (\<forall>a. heap s a \<noteq> None \<longleftrightarrow> a < nxt s) \<and>
     (\<forall>e e'. e \<noteq> e' \<longrightarrow> set (listeners s e) \<inter> set (listeners s e') = {}) \<and>
     (\<forall>a. a < nxt s \<longrightarrow> 0 \<le> calls (deref s a) \<and>
        (\<forall>n. times_limit (deref s a) = Some n \<longrightarrow> 0 < n \<longrightarrow> calls (deref s a) \<le> n)) \<and>
     (\<forall>e. \<forall>a\<in>set (listeners s e). \<not> reached_limit (deref s a))"

definition wf_but :: "('cb, 'a) mixin \<Rightarrow> string \<Rightarrow> addr \<Rightarrow> bool" where
  "wf_but s e a \<longleftrightarrow>
     (\<forall>e. distinct (listeners s e)) \<and>
     (\<forall>e. \<forall>a\<in>set (listeners s e). a < nxt s) \<and>
     (\<forall>a. heap s a \<noteq> None \<longleftrightarrow> a < nxt s) \<and>
     (\<forall>e e'. e \<noteq> e' \<longrightarrow> set (listeners s e) \<inter> set (listeners s e') = {}) \<and>
     (\<forall>a. a < nxt s \<longrightarrow> 0 \<le> calls (deref s a) \<and>
        (\<forall>n. times_limit (deref s a) = Some n \<longrightarrow> 0 < n \<longrightarrow> calls (deref s a) \<le> n)) \<and>
     (\<forall>e'. \<forall>b\<in>set (listeners s e'). reached_limit (deref s b) \<longrightarrow> b = a \<and> e' = e)"

definition filtered :: "('cb, 'a) mixin \<Rightarrow> ('cb, 'a) mixin \<Rightarrow> bool" where
  "filtered s0 s \<longleftrightarrow>
     nxt s = nxt s0 \<and>
     (\<forall>b. callback (deref s b) = callback (deref s0 b)) \<and>
     (\<forall>e. listeners s e = filter (\<lambda>a. \<not> struck s0 s e a) (listeners s0 e))"

definition pass_ready :: "('cb, 'a) mixin \<Rightarrow> ('cb, 'a) mixin \<Rightarrow> string \<Rightarrow> addr list \<Rightarrow> bool" where
  "pass_ready s0 s e xs \<longleftrightarrow>
     wf s \<and> filtered s0 s \<and> distinct xs \<and>
     (\<forall>a\<in>set xs. a \<in> set (listeners s0 e) \<and> \<not> reached_limit (deref s a))"

text \<open>The client that registers the callbacks of a list, one \<^verbatim>\<open>on\<close> call each.\<close>

definition reg :: "string \<Rightarrow> int option \<Rightarrow> 'cb list \<Rightarrow> ('cb, 'a) mixin \<Rightarrow> ('cb, 'a) mixin" where
  "reg e tm cbs s = run (\<lambda>h c a. None) (map (\<lambda>cb. On (Str e) cb tm) cbs) s"

text \<open>
  The relation between a run of a client and the run of the client with the zero and
  negative limits replaced by \<^verbatim>\<open>None\<close>: the states differ in those limits only.
\<close>

definition erased :: "'cb callback_obj \<Rightarrow> 'cb callback_obj" where
  "erased obj = obj\<lparr>times_limit := erase (times_limit obj)\<rparr>"

definition sim :: "('cb, 'a) mixin \<Rightarrow> ('cb, 'a) mixin \<Rightarrow> bool" where
  "sim s u \<longleftrightarrow>
     on_off_events u = on_off_events s \<and> trace u = trace s \<and> nxt u = nxt s \<and>
     (\<forall>a. heap u a = map_option erased (heap s a)) \<and>
     (\<forall>a obj. heap s a = Some obj \<longrightarrow> 0 \<le> calls obj)"

definition sim_res :: "('cb, 'a) result \<Rightarrow> ('cb, 'a) result \<Rightarrow> bool" where
  "sim_res r r' \<longleftrightarrow> raised r' = raised r \<and> sim (state_of r) (state_of r')"

section \<open>Callbacks that call back into the object\<close>

text \<open>
  A callback is Python code and may call \<^verbatim>\<open>on\<close>, \<^verbatim>\<open>off\<close>, \<^verbatim>\<open>once\<close> and \<^verbatim>\<open>trigger\<close> of the
  object that is calling it. What happens then is decided by three details of the
  source, and the second model keeps them.
  \<^item> \<^verbatim>\<open>on\<close> appends to the list object that the dictionary holds
    (\<^verbatim>\<open>setdefault(event, []).append(...)\<close>), whereas \<^verbatim>\<open>off\<close> builds a new list and
    rebinds the dictionary entry to it. So the list objects are kept in a store of
    their own and the dictionary maps a name to the address of a list object.
  \<^item> The inner loop of \<^verbatim>\<open>trigger\<close>, \<^verbatim>\<open>for callback_obj in self._on_off_events[event]\<close>,
    looks the list object up once and then iterates over that object: before each
    round the iterator compares its index with the length the list has at that
    moment. So the loop is given by the address of the list and an index.
  \<^item> \<^verbatim>\<open>trigger\<close> increments \<^verbatim>\<open>'calls'\<close> after the callback has returned.
\<close>

type_synonym laddr = nat

record ('cb, 'a) live =
  entries :: "string \<rightharpoonup> laddr"
  lists :: "laddr \<rightharpoonup> addr list"
  objs :: "addr \<rightharpoonup> 'cb callback_obj"
  nxt_list :: laddr
  nxt_obj :: addr
  log :: "('cb \<times> 'a) list"





definition list_of :: "('cb, 'a) live \<Rightarrow> laddr \<Rightarrow> addr list" where
  "list_of s l = the (lists s l)"

definition obj_of :: "('cb, 'a) live \<Rightarrow> addr \<Rightarrow> 'cb callback_obj" where
  "obj_of s a = the (objs s a)"












text \<open>
  The callback objects registered for an event, in the order of the list.
\<close>

definition listeners_re :: "('cb, 'a) live \<Rightarrow> string \<Rightarrow> addr list" where
  "listeners_re s event = (case entries s event of None \<Rightarrow> [] | Some l \<Rightarrow> list_of s l)"

subsection \<open>What the properties of the second model are stated with\<close>









subsection \<open>What the proofs about the second model are stated with\<close>

text \<open>
  The invariant of the second model. Dictionary entries are addresses of allocated
  list objects, one for each name; the list of a name holds distinct references to
  allocated callback objects; the lists of different names share no object; counters
  are not negative and stay within a positive limit; no listed object has reached its
  limit.
\<close>

definition sound :: "('cb, 'a) live \<Rightarrow> bool" where
  "sound s \<longleftrightarrow>
     (\<forall>e l. entries s e = Some l \<longrightarrow> l < nxt_list s) \<and>
     (\<forall>e e' l. entries s e = Some l \<longrightarrow> entries s e' = Some l \<longrightarrow> e = e') \<and>
     (\<forall>e. distinct (listeners_re s e)) \<and>
     (\<forall>e. \<forall>a\<in>set (listeners_re s e). a < nxt_obj s) \<and>
     (\<forall>a. objs s a \<noteq> None \<longleftrightarrow> a < nxt_obj s) \<and>
     (\<forall>e e'. e \<noteq> e' \<longrightarrow> set (listeners_re s e) \<inter> set (listeners_re s e') = {}) \<and>
     (\<forall>a. a < nxt_obj s \<longrightarrow> 0 \<le> calls (obj_of s a) \<and>
        (\<forall>k. times_limit (obj_of s a) = Some k \<longrightarrow> 0 < k \<longrightarrow> calls (obj_of s a) \<le> k)) \<and>
     (\<forall>e. \<forall>a\<in>set (listeners_re s e). \<not> reached_limit (obj_of s a))"

text \<open>
  What holds of the list object \<open>L\<close> that the inner loop for \<open>e\<close> iterates over, when
  the round with index \<open>i\<close> is about to start. The list object need no longer be the
  entry of \<open>e\<close>, since \<^verbatim>\<open>off\<close> may have rebound it; it is the entry of no other name,
  its objects are distinct, allocated and listed for no other name, and the objects
  from index \<open>i\<close> on have not reached their limit.
\<close>

definition pinv :: "('cb, 'a) live \<Rightarrow> string \<Rightarrow> laddr \<Rightarrow> nat \<Rightarrow> bool" where
  "pinv s e L i \<longleftrightarrow>
     L < nxt_list s \<and> entries s e \<noteq> None \<and>
     (\<forall>e'. entries s e' = Some L \<longrightarrow> e' = e) \<and>
     distinct (list_of s L) \<and>
     (\<forall>a\<in>set (list_of s L). a < nxt_obj s) \<and>
     (\<forall>a\<in>set (list_of s L). \<forall>e'. e' \<noteq> e \<longrightarrow> a \<notin> set (listeners_re s e')) \<and>
     (\<forall>j. i \<le> j \<longrightarrow> j < length (list_of s L) \<longrightarrow>
          \<not> reached_limit (obj_of s (list_of s L ! j)))"



text \<open>
  The end of a round whose callback has returned: the increment, followed at the
  limit by the removal.
\<close>

definition bump :: "addr \<Rightarrow> ('cb, 'a) live \<Rightarrow> ('cb, 'a) live" where
  "bump a s = s\<lparr>objs := (objs s)(a \<mapsto> (obj_of s a)\<lparr>calls := calls (obj_of s a) + 1\<rparr>)\<rparr>"


section \<open>Unsubscribing, and names that are not keys\<close>

lemmas eval_simps = on_def once_def off_def trigger_def init_def setdefault_append_def
  trigger_pass.simps deref_def Let_def listeners_def invocations_def

lemma off_loop_keeps_absent:
  "off_loop es cb s = Inr s' \<Longrightarrow> (on_off_events s' e = None) = (on_off_events s e = None)"
  by (induction es arbitrary: s) (auto split: option.splits if_splits)

lemma off_loop_raises:
  "e \<in> set es \<Longrightarrow> on_off_events s e = None \<Longrightarrow>
   \<exists>e' s'. off_loop es cb s = Inl (KeyError e', s') \<and> e' \<in> set es \<and> on_off_events s e' = None"
proof (induction es arbitrary: s)
  case Nil
  then show ?case by simp
next
  case (Cons x es)
  show ?case
  proof (cases "on_off_events s x")
    case None
    then show ?thesis by simp
  next
    case (Some xs)
    let ?s = "s\<lparr>on_off_events := (on_off_events s)(x \<mapsto> filter (\<lambda>a. callback (deref s a) \<noteq> cb) xs)\<rparr>"
    from Some Cons.prems have ne: "e \<noteq> x" by auto
    with Cons.prems have "e \<in> set es" "on_off_events ?s e = None" by auto
    from Cons.IH[OF this] obtain e' s' where
      h: "off_loop es cb ?s = Inl (KeyError e', s')" "e' \<in> set es" "on_off_events ?s e' = None"
      by blast
    from h(3) have "on_off_events s e' = None" by (auto split: if_splits)
    with h Some show ?thesis by auto
  qed
qed

text \<open>
  Claim C3. When one of the names given to \<^verbatim>\<open>off\<close> is not a key of the dictionary, the
  call does not return: it raises \<^verbatim>\<open>KeyError\<close> for a name of the call that is not a key.
  This holds in every state and for every callback.
\<close>
theorem off_unknown_event_raises:
  assumes "e \<in> set (normalise evs)" and "on_off_events s e = None"
  shows "\<exists>e' s'. off evs cb s = Inl (KeyError e', s') \<and> e' \<in> set (normalise evs)
           \<and> on_off_events s e' = None"
  unfolding off_def using off_loop_raises[OF assms] .

theorem off_unknown_event_raises_witness:
  "''b'' \<in> set (normalise (Lst [''a'', ''b'']))
   \<and> on_off_events (on (Str ''a'') (0::nat) None (init :: (nat, unit) mixin)) ''b'' = None
   \<and> (\<exists>e' s'. off (Lst [''a'', ''b'']) 0 (on (Str ''a'') (0::nat) None (init :: (nat, unit) mixin))
                 = Inl (KeyError e', s')
        \<and> e' \<in> set (normalise (Lst [''a'', ''b'']))
        \<and> on_off_events (on (Str ''a'') (0::nat) None (init :: (nat, unit) mixin)) e' = None)"
proof -
  have h1: "''b'' \<in> set (normalise (Lst [''a'', ''b'']))" by simp
  have h2: "on_off_events (on (Str ''a'') (0::nat) None (init :: (nat, unit) mixin)) ''b'' = None"
    by (simp add: eval_simps)
  from off_unknown_event_raises[OF h1 h2, of 0] h1 h2 show ?thesis by blast
qed

lemma trigger_loop_absent:
  "\<forall>e\<in>set es. on_off_events s e = None \<Longrightarrow> trigger_loop beh es args s = Inr s"
  by (induction es) auto

text \<open>
  Claim C8. Triggering names that are not keys of the dictionary returns normally and
  leaves the object as it was: nothing is called (the trace is part of the state),
  nothing is raised, even by a behaviour under which every call would raise.
\<close>
theorem trigger_unknown_event_noop:
  assumes "\<forall>e\<in>set (normalise evs). on_off_events s e = None"
  shows "trigger beh evs args s = Inr s"
  unfolding trigger_def using assms by (rule trigger_loop_absent)

theorem trigger_unknown_event_noop_witness:
  "on_off_events (on (Str ''a'') (0::nat) None (init :: (nat, unit) mixin)) ''x'' = None
   \<and> on_off_events (on (Str ''a'') (0::nat) None (init :: (nat, unit) mixin)) ''y'' = None
   \<and> trigger (\<lambda>h c a. Some (Raised ''boom'')) (Lst [''x'', ''y'']) ()
        (on (Str ''a'') (0::nat) None (init :: (nat, unit) mixin))
      = Inr (on (Str ''a'') 0 None init)"
proof -
  have h: "\<forall>e\<in>set (normalise (Lst [''x'', ''y''])).
      on_off_events (on (Str ''a'') (0::nat) None (init :: (nat, unit) mixin)) e = None"
    by (simp add: eval_simps)
  from trigger_unknown_event_noop[OF h] h show ?thesis by simp
qed

lemma off_loop_append:
  "off_loop pre cb s = Inr s1 \<Longrightarrow> off_loop (pre @ post) cb s = off_loop post cb s1"
  by (induction pre arbitrary: s) (auto split: option.splits)

lemma off_loop_present:
  "\<forall>x\<in>set es. on_off_events s x \<noteq> None \<Longrightarrow> \<exists>s1. off_loop es cb s = Inr s1"
proof (induction es arbitrary: s)
  case Nil
  then show ?case by simp
next
  case (Cons x es)
  then obtain xs where xs: "on_off_events s x = Some xs" by auto
  let ?s = "s\<lparr>on_off_events := (on_off_events s)(x \<mapsto> filter (\<lambda>a. callback (deref s a) \<noteq> cb) xs)\<rparr>"
  from Cons.prems have "\<forall>y\<in>set es. on_off_events ?s y \<noteq> None" by auto
  from Cons.IH[OF this] xs show ?case by auto
qed

lemma deref_events_upd [simp]: "deref (s\<lparr>on_off_events := m\<rparr>) a = deref s a"
  by (simp add: deref_def)

lemma off_loop_events:
  "off_loop es cb s = Inr s' \<Longrightarrow>
   on_off_events s' e =
     (if e \<in> set es then map_option (filter (\<lambda>a. callback (deref s a) \<noteq> cb)) (on_off_events s e)
      else on_off_events s e)"
proof (induction es arbitrary: s)
  case Nil
  then show ?case by simp
next
  case (Cons x es)
  from Cons.prems obtain xs where xs: "on_off_events s x = Some xs"
    by (auto split: option.splits)
  let ?s = "s\<lparr>on_off_events := (on_off_events s)(x \<mapsto> filter (\<lambda>a. callback (deref s a) \<noteq> cb) xs)\<rparr>"
  from Cons.prems xs have "off_loop es cb ?s = Inr s'" by simp
  from Cons.IH[OF this] xs show ?case by (auto simp: map_option_case split: option.splits)
qed

text \<open>
  Claim C10. \<^verbatim>\<open>off\<close> is not atomic. If the names \<open>pre\<close> are keys and the next name
  \<open>e\<close> is not, the call raises \<^verbatim>\<open>KeyError\<close> for \<open>e\<close> and leaves the object in the
  state that \<^verbatim>\<open>off\<close> on \<open>pre\<close> alone returns: the lists of the names in \<open>pre\<close> have
  been filtered and stay so.
\<close>
theorem off_not_atomic:
  assumes "\<forall>x\<in>set pre. on_off_events s x \<noteq> None" and "on_off_events s e = None"
  shows "\<exists>s1. off (Lst pre) cb s = Inr s1
           \<and> off (Lst (pre @ e # post)) cb s = Inl (KeyError e, s1)
           \<and> (\<forall>x\<in>set pre. on_off_events s1 x =
                 map_option (filter (\<lambda>a. callback (deref s a) \<noteq> cb)) (on_off_events s x))"
proof -
  from off_loop_present[OF assms(1)] obtain s1 where s1: "off_loop pre cb s = Inr s1" by blast
  from off_loop_keeps_absent[OF s1] assms(2) have "on_off_events s1 e = None" by simp
  then have "off_loop (pre @ e # post) cb s = Inl (KeyError e, s1)"
    by (simp add: off_loop_append[OF s1])
  moreover from off_loop_events[OF s1]
  have "\<forall>x\<in>set pre. on_off_events s1 x =
          map_option (filter (\<lambda>a. callback (deref s a) \<noteq> cb)) (on_off_events s x)" by simp
  ultimately show ?thesis using s1 by (simp add: off_def)
qed

theorem off_not_atomic_witness:
  "on_off_events (on (Str ''a'') (0::nat) None (init :: (nat, unit) mixin)) ''b'' = None
   \<and> (\<exists>s1. off (Lst [''a'']) 0 (on (Str ''a'') (0::nat) None (init :: (nat, unit) mixin)) = Inr s1
          \<and> off (Lst ([''a''] @ ''b'' # [''c''])) 0 (on (Str ''a'') 0 None init) = Inl (KeyError ''b'', s1)
          \<and> on_off_events s1 ''a'' = Some []
          \<and> on_off_events (on (Str ''a'') (0::nat) None (init :: (nat, unit) mixin)) ''a'' = Some [0])"
proof -
  let ?s = "on (Str ''a'') (0::nat) None (init :: (nat, unit) mixin)"
  have h1: "\<forall>x\<in>set [''a'']. on_off_events ?s x \<noteq> None" by (simp add: eval_simps)
  have h2: "on_off_events ?s ''b'' = None" by (simp add: eval_simps)
  have h3: "on_off_events ?s ''a'' = Some [0]" by (simp add: eval_simps)
  have h4: "callback (deref ?s 0) = 0" by (simp add: eval_simps)
  from off_not_atomic[OF h1 h2, of 0 "[''c'']"] obtain s1 where
    "off (Lst [''a'']) 0 ?s = Inr s1"
    "off (Lst ([''a''] @ ''b'' # [''c''])) 0 ?s = Inl (KeyError ''b'', s1)"
    "\<forall>x\<in>set [''a'']. on_off_events s1 x =
        map_option (filter (\<lambda>a. callback (deref ?s a) \<noteq> 0)) (on_off_events ?s x)"
    by blast
  then show ?thesis using h1 h2 h3 h4 by auto
qed

lemma off_Str:
  "off (Str e) cb s =
     (case on_off_events s e of
        None \<Rightarrow> Inl (KeyError e, s)
      | Some xs \<Rightarrow> Inr (s\<lparr>on_off_events := (on_off_events s)
                         (e \<mapsto> filter (\<lambda>a. callback (deref s a) \<noteq> cb) xs)\<rparr>))"
  by (simp add: off_def split: option.splits)

lemma off_Str_Inl: "off (Str e) cb s = Inl x \<Longrightarrow> x = (KeyError e, s) \<and> on_off_events s e = None"
  by (auto simp: off_Str split: option.splits)

lemma off_Str_Inr:
  assumes "off (Str e) cb s = Inr s3"
  shows "heap s3 = heap s" and "nxt s3 = nxt s" and "trace s3 = trace s"
    and "on_off_events s3 e \<noteq> None"
    and "listeners s3 e' =
           (if e' = e then filter (\<lambda>a. callback (deref s a) \<noteq> cb) (listeners s e)
            else listeners s e')"
    and "deref s3 b = deref s b"
  using assms by (auto simp: off_Str listeners_def deref_def split: option.splits)

lemma off_Str_present:
  "on_off_events s e \<noteq> None \<Longrightarrow> \<exists>s3. off (Str e) cb s = Inr s3"
  by (auto simp: off_Str split: option.splits)

section \<open>The store invariant\<close>

lemma wf_distinct: "wf s \<Longrightarrow> distinct (listeners s e)"
  by (simp add: wf_def)

lemma wf_bound: "wf s \<Longrightarrow> a \<in> set (listeners s e) \<Longrightarrow> a < nxt s"
  by (simp add: wf_def)

lemma wf_alloc: "wf s \<Longrightarrow> (heap s a \<noteq> None) = (a < nxt s)"
  by (simp add: wf_def)

lemma wf_disjoint:
  "wf s \<Longrightarrow> a \<in> set (listeners s e) \<Longrightarrow> a \<in> set (listeners s e') \<Longrightarrow> e = e'"
  unfolding wf_def by blast

lemma wf_calls_nonneg: "wf s \<Longrightarrow> a < nxt s \<Longrightarrow> 0 \<le> calls (deref s a)"
  by (simp add: wf_def)

lemma wf_calls_le:
  "wf s \<Longrightarrow> a < nxt s \<Longrightarrow> times_limit (deref s a) = Some n \<Longrightarrow> 0 < n \<Longrightarrow> calls (deref s a) \<le> n"
  by (simp add: wf_def)

lemma wf_not_reached: "wf s \<Longrightarrow> a \<in> set (listeners s e) \<Longrightarrow> \<not> reached_limit (deref s a)"
  by (simp add: wf_def)

lemma wfI:
  assumes "\<And>e. distinct (listeners s e)"
    and "\<And>e a. a \<in> set (listeners s e) \<Longrightarrow> a < nxt s"
    and "\<And>a. (heap s a \<noteq> None) = (a < nxt s)"
    and "\<And>e e' a. a \<in> set (listeners s e) \<Longrightarrow> a \<in> set (listeners s e') \<Longrightarrow> e = e'"
    and "\<And>a. a < nxt s \<Longrightarrow> 0 \<le> calls (deref s a)"
    and "\<And>a n. a < nxt s \<Longrightarrow> times_limit (deref s a) = Some n \<Longrightarrow> 0 < n \<Longrightarrow> calls (deref s a) \<le> n"
    and "\<And>e a. a \<in> set (listeners s e) \<Longrightarrow> \<not> reached_limit (deref s a)"
  shows "wf s"
  unfolding wf_def
proof (intro conjI allI impI ballI)
  fix e e' :: string assume "e \<noteq> e'"
  then show "set (listeners s e) \<inter> set (listeners s e') = {}" using assms(4) by blast
qed (use assms in \<open>blast+\<close>)

lemma wf_init: "wf init"
  by (simp add: wf_def init_def listeners_def)

lemma init_simps [simp]: "nxt init = 0" "trace init = []" "listeners init e = []"
  "on_off_events init = Map.empty"
  by (simp_all add: init_def listeners_def)

subsection \<open>Subscribing\<close>

lemma listeners_setdefault_append:
  "listeners (setdefault_append event obj s) e =
     (if e = event then listeners s e @ [nxt s] else listeners s e)"
  by (simp add: listeners_def setdefault_append_def)

lemma deref_setdefault_append:
  "deref (setdefault_append event obj s) a = (if a = nxt s then obj else deref s a)"
  by (simp add: deref_def setdefault_append_def)

lemma nxt_setdefault_append: "nxt (setdefault_append event obj s) = Suc (nxt s)"
  by (simp add: setdefault_append_def)

lemma heap_setdefault_append: "heap (setdefault_append event obj s) = (heap s)(nxt s \<mapsto> obj)"
  by (simp add: setdefault_append_def)

lemma trace_setdefault_append: "trace (setdefault_append event obj s) = trace s"
  by (simp add: setdefault_append_def)

lemma wf_setdefault_append:
  assumes "wf s" and "calls obj = 0"
  shows "wf (setdefault_append event obj s)"
  using assms unfolding wf_def
  apply (simp add: listeners_setdefault_append deref_setdefault_append nxt_setdefault_append
      heap_setdefault_append reached_limit_def)
  apply (intro conjI allI impI ballI)
  apply (auto simp: less_Suc_eq)
  done

lemma wf_on_loop: "wf s \<Longrightarrow> calls obj = 0 \<Longrightarrow> wf (on_loop es obj s)"
  by (induction es arbitrary: s) (simp_all add: wf_setdefault_append)

lemma wf_on: "wf s \<Longrightarrow> wf (on evs cb tm s)"
  by (simp add: on_def wf_on_loop)

lemma on_Str: "on (Str e) cb tm s = setdefault_append e \<lparr>callback = cb, times_limit = tm, calls = 0\<rparr> s"
  by (simp add: on_def)

lemma on_loop_appends: "\<exists>ys. listeners (on_loop es obj s) e = listeners s e @ ys"
proof (induction es arbitrary: s)
  case Nil
  then show ?case by simp
next
  case (Cons x es)
  from Cons.IH[of "setdefault_append x obj s"] obtain ys where
    "listeners (on_loop es obj (setdefault_append x obj s)) e
       = listeners (setdefault_append x obj s) e @ ys" by blast
  then show ?case by (simp add: listeners_setdefault_append)
qed

subsection \<open>Unsubscribing\<close>

lemma off_loop_state_frame:
  "heap (state_of (off_loop es cb s)) = heap s \<and> nxt (state_of (off_loop es cb s)) = nxt s
   \<and> trace (state_of (off_loop es cb s)) = trace s"
  by (induction es arbitrary: s) (auto split: option.splits)

lemma listeners_events_upd:
  "listeners (s\<lparr>on_off_events := (on_off_events s)(x \<mapsto> ys)\<rparr>) e =
     (if e = x then ys else listeners s e)"
  by (simp add: listeners_def)

lemma off_loop_listeners_cases:
  "listeners (state_of (off_loop es cb s)) e = listeners s e \<or>
   listeners (state_of (off_loop es cb s)) e = filter (\<lambda>a. callback (deref s a) \<noteq> cb) (listeners s e)"
proof (induction es arbitrary: s)
  case Nil
  then show ?case by simp
next
  case (Cons x es)
  show ?case
  proof (cases "on_off_events s x")
    case None
    then show ?thesis by simp
  next
    case (Some xs)
    let ?s = "s\<lparr>on_off_events := (on_off_events s)(x \<mapsto> filter (\<lambda>a. callback (deref s a) \<noteq> cb) xs)\<rparr>"
    have xs: "listeners s x = xs" using Some by (simp add: listeners_def)
    have eq: "off_loop (x # es) cb s = off_loop es cb ?s" using Some by simp
    have d: "\<And>a. deref ?s a = deref s a" by simp
    from Cons.IH[of ?s] show ?thesis
      unfolding eq d by (auto simp: listeners_events_upd xs)
  qed
qed

lemma wf_shrink:
  assumes "wf s" and "heap s' = heap s" and "nxt s' = nxt s"
    and "\<And>e. \<exists>p. listeners s' e = filter p (listeners s e)"
  shows "wf s'"
proof -
  have d: "\<And>a. deref s' a = deref s a" using assms(2) by (simp add: deref_def)
  have sub: "\<And>e a. a \<in> set (listeners s' e) \<Longrightarrow> a \<in> set (listeners s e)"
  proof -
    fix e a assume a: "a \<in> set (listeners s' e)"
    from assms(4)[of e] obtain p where "listeners s' e = filter p (listeners s e)" by blast
    with a show "a \<in> set (listeners s e)" by simp
  qed
  show ?thesis
  proof (rule wfI)
    fix e
    from assms(4)[of e] obtain p where "listeners s' e = filter p (listeners s e)" by blast
    then show "distinct (listeners s' e)" using wf_distinct[OF assms(1), of e] by simp
  next
    fix e a assume "a \<in> set (listeners s' e)"
    then have "a \<in> set (listeners s e)" by (rule sub)
    then show "a < nxt s'" using wf_bound[OF assms(1)] assms(3) by simp
  next
    fix a show "(heap s' a \<noteq> None) = (a < nxt s')"
      using wf_alloc[OF assms(1)] assms(2,3) by simp
  next
    fix e e' a assume "a \<in> set (listeners s' e)" "a \<in> set (listeners s' e')"
    then show "e = e'" using sub wf_disjoint[OF assms(1)] by blast
  next
    fix a assume "a < nxt s'"
    then show "0 \<le> calls (deref s' a)" using wf_calls_nonneg[OF assms(1)] assms(3) d by simp
  next
    fix a n assume "a < nxt s'" "times_limit (deref s' a) = Some n" "0 < n"
    then show "calls (deref s' a) \<le> n" using wf_calls_le[OF assms(1)] assms(3) d by simp
  next
    fix e a assume "a \<in> set (listeners s' e)"
    then have "a \<in> set (listeners s e)" by (rule sub)
    then show "\<not> reached_limit (deref s' a)" using wf_not_reached[OF assms(1)] d by simp
  qed
qed

lemma wf_off_loop: "wf s \<Longrightarrow> wf (state_of (off_loop es cb s))"
proof (rule wf_shrink)
  fix e
  from off_loop_listeners_cases[of es cb s e]
  show "\<exists>p. listeners (state_of (off_loop es cb s)) e = filter p (listeners s e)"
  proof
    assume "listeners (state_of (off_loop es cb s)) e = listeners s e"
    then have "listeners (state_of (off_loop es cb s)) e = filter (\<lambda>_. True) (listeners s e)"
      by simp
    then show ?thesis by blast
  next
    assume "listeners (state_of (off_loop es cb s)) e =
            filter (\<lambda>a. callback (deref s a) \<noteq> cb) (listeners s e)"
    then show ?thesis by blast
  qed
qed (simp_all add: off_loop_state_frame)

lemma wf_off: "wf s \<Longrightarrow> wf (state_of (off evs cb s))"
  by (simp add: off_def wf_off_loop)

section \<open>One round of a pass\<close>

lemma trigger_pass_Cons:
  "trigger_pass beh event args (a # rest) s =
     (case beh (trace s) (callback (deref s a)) args of
        Some err \<Rightarrow> Inl (err, called s a args)
      | None \<Rightarrow>
          if Some (calls (deref s a) + 1) = times_limit (deref s a)
          then (case off (Str event) (callback (deref s a)) (counted s a args) of
                  Inl x \<Rightarrow> Inl x
                | Inr s3 \<Rightarrow> trigger_pass beh event args rest s3)
          else trigger_pass beh event args rest (counted s a args))"
  by (simp add: Let_def called_def counted_def split: option.splits)

declare trigger_pass.simps(2) [simp del]

lemma listeners_called [simp]: "listeners (called s a args) e = listeners s e"
  by (simp add: called_def listeners_def)

lemma listeners_counted [simp]: "listeners (counted s a args) e = listeners s e"
  by (simp add: counted_def called_def listeners_def)

lemma deref_called [simp]: "deref (called s a args) b = deref s b"
  by (simp add: called_def deref_def)

lemma deref_counted:
  "deref (counted s a args) b =
     (if b = a then (deref s a)\<lparr>calls := calls (deref s a) + 1\<rparr> else deref s b)"
  by (simp add: counted_def called_def deref_def)

lemma nxt_called [simp]: "nxt (called s a args) = nxt s"
  by (simp add: called_def)

lemma nxt_counted [simp]: "nxt (counted s a args) = nxt s"
  by (simp add: counted_def called_def)

lemma heap_called [simp]: "heap (called s a args) = heap s"
  by (simp add: called_def)

lemma heap_counted_None: "(heap (counted s a args) b \<noteq> None) = (b = a \<or> heap s b \<noteq> None)"
  by (simp add: counted_def called_def)

lemma trace_called [simp]: "trace (called s a args) = trace s @ [(callback (deref s a), args)]"
  by (simp add: called_def)

lemma trace_counted [simp]: "trace (counted s a args) = trace s @ [(callback (deref s a), args)]"
  by (simp add: counted_def called_def)

lemma on_off_events_called [simp]: "on_off_events (called s a args) = on_off_events s"
  by (simp add: called_def)

lemma on_off_events_counted [simp]: "on_off_events (counted s a args) = on_off_events s"
  by (simp add: counted_def called_def)

lemma callback_counted [simp]: "callback (deref (counted s a args) b) = callback (deref s b)"
  by (simp add: deref_counted)

lemma times_counted [simp]: "times_limit (deref (counted s a args) b) = times_limit (deref s b)"
  by (simp add: deref_counted)

lemma calls_counted:
  "calls (deref (counted s a args) b) = calls (deref s b) + (if b = a then 1 else 0)"
  by (simp add: deref_counted)

lemma wf_called: "wf s \<Longrightarrow> wf (called s a args)"
  by (simp add: wf_def)

lemma wf_but_counted:
  assumes "wf s" and "a < nxt s" and "\<not> reached_limit (deref s a)"
    and "\<And>e'. e' \<noteq> e \<Longrightarrow> a \<notin> set (listeners s e')"
  shows "wf_but (counted s a args) e a"
proof -
  have le: "\<And>n. times_limit (deref s a) = Some n \<Longrightarrow> 0 < n \<Longrightarrow> calls (deref s a) + 1 \<le> n"
  proof -
    fix n assume n: "times_limit (deref s a) = Some n" "0 < n"
    from wf_calls_le[OF assms(1,2) n] have "calls (deref s a) \<le> n" .
    moreover have "calls (deref s a) \<noteq> n" using assms(3) n by (auto simp: reached_limit_def)
    ultimately show "calls (deref s a) + 1 \<le> n" by simp
  qed
  have nn: "0 \<le> calls (deref s a)" by (rule wf_calls_nonneg[OF assms(1,2)])
  show ?thesis
    unfolding wf_but_def
  proof (intro conjI allI impI ballI)
    fix e' show "distinct (listeners (counted s a args) e')" using wf_distinct[OF assms(1)] by simp
  next
    fix e' b assume "b \<in> set (listeners (counted s a args) e')"
    then show "b < nxt (counted s a args)" using wf_bound[OF assms(1)] by simp
  next
    fix b show "(heap (counted s a args) b \<noteq> None) = (b < nxt (counted s a args))"
      unfolding heap_counted_None using wf_alloc[OF assms(1)] assms(2) by auto
  next
    fix e1 e2 :: string assume "e1 \<noteq> e2"
    then show "set (listeners (counted s a args) e1) \<inter> set (listeners (counted s a args) e2) = {}"
      using wf_disjoint[OF assms(1)] by auto
  next
    fix b assume "b < nxt (counted s a args)"
    then show "0 \<le> calls (deref (counted s a args) b)"
      using wf_calls_nonneg[OF assms(1), of b] nn by (simp add: deref_counted)
  next
    fix b n assume "b < nxt (counted s a args)" "times_limit (deref (counted s a args) b) = Some n" "0 < n"
    then show "calls (deref (counted s a args) b) \<le> n"
      using wf_calls_le[OF assms(1), of b n] le[of n] by (simp add: deref_counted split: if_splits)
  next
    fix e' b assume b: "b \<in> set (listeners (counted s a args) e')" "reached_limit (deref (counted s a args) b)"
    then have "b = a" using wf_not_reached[OF assms(1), of b e'] by (auto simp: deref_counted split: if_splits)
    moreover have "e' = e" using b(1) assms(4)[of e'] \<open>b = a\<close> by auto
    ultimately show "b = a" "e' = e" by simp_all
  qed
qed

lemma wf_but_wf:
  assumes "wf_but s e a" and "a \<in> set (listeners s e) \<Longrightarrow> \<not> reached_limit (deref s a)"
  shows "wf s"
proof -
  have "\<forall>e'. \<forall>b\<in>set (listeners s e'). \<not> reached_limit (deref s b)"
  proof (intro allI ballI notI)
    fix e' b assume b: "b \<in> set (listeners s e')" "reached_limit (deref s b)"
    with assms(1) have "b = a \<and> e' = e" unfolding wf_but_def by blast
    with b assms(2) show False by simp
  qed
  with assms(1) show ?thesis unfolding wf_but_def wf_def by simp
qed

lemma wf_but_shrink:
  assumes "wf_but s e a" and "heap s' = heap s" and "nxt s' = nxt s"
    and "\<And>e'. \<exists>p. listeners s' e' = filter p (listeners s e')"
    and "a \<notin> set (listeners s' e)"
  shows "wf s'"
proof -
  have d: "\<And>b. deref s' b = deref s b" using assms(2) by (simp add: deref_def)
  have sub: "\<And>e' b. b \<in> set (listeners s' e') \<Longrightarrow> b \<in> set (listeners s e')"
  proof -
    fix e' b assume a: "b \<in> set (listeners s' e')"
    from assms(4)[of e'] obtain p where "listeners s' e' = filter p (listeners s e')" by blast
    with a show "b \<in> set (listeners s e')" by simp
  qed
  show ?thesis
  proof (rule wfI)
    fix e'
    from assms(4)[of e'] obtain p where "listeners s' e' = filter p (listeners s e')" by blast
    moreover have "distinct (listeners s e')" using assms(1) by (simp add: wf_but_def)
    ultimately show "distinct (listeners s' e')" by simp
  next
    fix e' b assume "b \<in> set (listeners s' e')"
    then have "b \<in> set (listeners s e')" by (rule sub)
    then show "b < nxt s'" using assms(1,3) by (simp add: wf_but_def)
  next
    fix b show "(heap s' b \<noteq> None) = (b < nxt s')"
      using assms(1,2,3) by (simp add: wf_but_def)
  next
    fix e1 e2 b assume "b \<in> set (listeners s' e1)" "b \<in> set (listeners s' e2)"
    then have "b \<in> set (listeners s e1)" "b \<in> set (listeners s e2)" by (auto dest: sub)
    then show "e1 = e2" using assms(1) unfolding wf_but_def by blast
  next
    fix b assume "b < nxt s'"
    then show "0 \<le> calls (deref s' b)" using assms(1,3) d by (simp add: wf_but_def)
  next
    fix b n assume "b < nxt s'" "times_limit (deref s' b) = Some n" "0 < n"
    then show "calls (deref s' b) \<le> n" using assms(1,3) d by (simp add: wf_but_def)
  next
    fix e' b assume b: "b \<in> set (listeners s' e')"
    then have b': "b \<in> set (listeners s e')" by (rule sub)
    show "\<not> reached_limit (deref s' b)"
    proof
      assume "reached_limit (deref s' b)"
      then have "reached_limit (deref s b)" by (simp add: d)
      with b' assms(1) have "b = a \<and> e' = e" unfolding wf_but_def by blast
      with b assms(5) show False by simp
    qed
  qed
qed

lemma wf_but_off:
  assumes "wf_but s e a" and "off (Str e) (callback (deref s a)) s = Inr s3"
  shows "wf s3"
proof (rule wf_but_shrink[OF assms(1)])
  show "heap s3 = heap s" "nxt s3 = nxt s" using off_Str_Inr[OF assms(2)] by simp_all
next
  fix e'
  show "\<exists>p. listeners s3 e' = filter p (listeners s e')"
  proof (cases "e' = e")
    case True
    then show ?thesis using off_Str_Inr(5)[OF assms(2), of e'] by auto
  next
    case False
    then have "listeners s3 e' = filter (\<lambda>_. True) (listeners s e')"
      using off_Str_Inr(5)[OF assms(2), of e'] by simp
    then show ?thesis by blast
  qed
next
  show "a \<notin> set (listeners s3 e)" using off_Str_Inr(5)[OF assms(2), of e] by simp
qed

lemma round_of_pass_round: "round_of s e a args (pass_round s e a args)"
proof (cases "Some (calls (deref s a) + 1) = times_limit (deref s a)")
  case True
  show ?thesis
  proof (cases "on_off_events s e")
    case None
    then have "pass_round s e a args = counted s a args"
      using True by (simp add: pass_round_def off_Str)
    moreover have "listeners s e = []" using None by (simp add: listeners_def)
    ultimately show ?thesis using True by (simp add: round_of_def)
  next
    case (Some xs)
    then obtain s3 where s3: "off (Str e) (callback (deref s a)) (counted s a args) = Inr s3"
      by (auto simp: off_Str)
    then have p: "pass_round s e a args = s3" using True by (simp add: pass_round_def)
    note o = off_Str_Inr[OF s3]
    show ?thesis unfolding p round_of_def using True o Some by auto
  qed
next
  case False
  then show ?thesis by (simp add: pass_round_def round_of_def)
qed

lemma deref_pass_round: "b \<noteq> a \<Longrightarrow> deref (pass_round s e a args) b = deref s b"
  using round_of_pass_round[of s e a args] by (simp add: round_of_def deref_counted)

lemma trigger_pass_Cons_returned:
  assumes "trigger_pass beh e args (a # rest) s = Inr s'"
  shows "beh (trace s) (callback (deref s a)) args = None"
    and "trigger_pass beh e args rest (pass_round s e a args) = Inr s'"
  using assms
  by (auto simp: trigger_pass_Cons pass_round_def split: option.splits sum.splits if_splits)

lemma wf_pass_round:
  assumes "wf s" and "a < nxt s" and "\<not> reached_limit (deref s a)"
    and "\<And>e'. e' \<noteq> e \<Longrightarrow> a \<notin> set (listeners s e')"
  shows "wf (pass_round s e a args)"
proof -
  let ?s2 = "counted s a args"
  have wb: "wf_but ?s2 e a" by (rule wf_but_counted[OF assms])
  have pos: "0 < calls (deref s a) + 1" using wf_calls_nonneg[OF assms(1,2)] by simp
  show ?thesis
  proof (cases "Some (calls (deref s a) + 1) = times_limit (deref s a)")
    case True
    show ?thesis
    proof (cases "off (Str e) (callback (deref s a)) ?s2")
      case (Inl x)
      from off_Str_Inl[OF Inl] have x: "x = (KeyError e, ?s2)" "on_off_events ?s2 e = None" by simp_all
      then have "listeners ?s2 e = []" by (simp add: listeners_def)
      then have "wf ?s2" using wf_but_wf[OF wb] by simp
      then show ?thesis using True Inl x by (simp add: pass_round_def)
    next
      case (Inr s3)
      have cb: "callback (deref ?s2 a) = callback (deref s a)" by simp
      have "wf s3" using wf_but_off[OF wb] Inr cb by simp
      then show ?thesis using True Inr by (simp add: pass_round_def)
    qed
  next
    case False
    then have "\<not> reached_limit (deref ?s2 a)" by (simp add: reached_limit_def deref_counted)
    then have "wf ?s2" using wf_but_wf[OF wb] by simp
    then show ?thesis using False by (simp add: pass_round_def)
  qed
qed

section \<open>Passes and loops\<close>

lemma invocations_Nil [simp]: "invocations s args [] = []"
  by (simp add: invocations_def)

lemma invocations_Cons [simp]:
  "invocations s args (a # xs) = (callback (deref s a), args) # invocations s args xs"
  by (simp add: invocations_def)

lemma invocations_append [simp]:
  "invocations s args (xs @ ys) = invocations s args xs @ invocations s args ys"
  by (simp add: invocations_def)

lemma invocations_cong:
  "(\<And>a. callback (deref s' a) = callback (deref s a)) \<Longrightarrow> invocations s' args xs = invocations s args xs"
  by (simp add: invocations_def)

lemma trigger_pass_returned:
  "trigger_pass beh e args xs s = Inr s' \<Longrightarrow>
   trace s' = trace s @ invocations s args xs \<and>
   (\<forall>b. callback (deref s' b) = callback (deref s b) \<and>
        times_limit (deref s' b) = times_limit (deref s b) \<and>
        calls (deref s' b) = calls (deref s b) + int (count_list xs b)) \<and>
   nxt s' = nxt s"
proof (induction xs arbitrary: s)
  case Nil
  then show ?case by simp
next
  case (Cons a xs)
  let ?s2 = "pass_round s e a args"
  from trigger_pass_Cons_returned(2)[OF Cons.prems]
  have p: "trigger_pass beh e args xs ?s2 = Inr s'" .
  note r = round_of_pass_round[of s e a args, unfolded round_of_def]
  have inv: "invocations ?s2 args xs = invocations s args xs"
    by (rule invocations_cong) (simp add: r)
  from Cons.IH[OF p] show ?case
    by (simp add: r inv calls_counted)
qed

lemma trigger_pass_prefix:
  assumes "on_off_events s e \<noteq> None"
    and "returns_all beh (trace s) (invocations s args done)"
  shows "\<exists>s1. trigger_pass beh e args done s = Inr s1 \<and> on_off_events s1 e \<noteq> None \<and>
              trigger_pass beh e args (done @ rest) s = trigger_pass beh e args rest s1"
  using assms
proof (induction "done" arbitrary: s)
  case Nil
  then show ?case by simp
next
  case (Cons a xs)
  let ?s2 = "counted s a args"
  from Cons.prems(2) have ok: "beh (trace s) (callback (deref s a)) args = None"
    and later: "returns_all beh (trace s @ [(callback (deref s a), args)]) (invocations s args xs)"
    by simp_all
  show ?case
  proof (cases "Some (calls (deref s a) + 1) = times_limit (deref s a)")
    case True
    from Cons.prems(1) obtain s3 where s3: "off (Str e) (callback (deref s a)) ?s2 = Inr s3"
      using off_Str_present[of ?s2 e] by auto
    note o = off_Str_Inr[OF s3]
    have inv: "invocations s3 args xs = invocations s args xs"
      by (rule invocations_cong) (simp add: o(6))
    have "returns_all beh (trace s3) (invocations s3 args xs)"
      using later by (simp add: inv o(3))
    from Cons.IH[OF o(4) this] show ?thesis
      using ok True s3 by (simp add: trigger_pass_Cons)
  next
    case False
    have inv: "invocations ?s2 args xs = invocations s args xs"
      by (rule invocations_cong) simp
    have "returns_all beh (trace ?s2) (invocations ?s2 args xs)"
      using later by (simp add: inv)
    moreover have "on_off_events ?s2 e \<noteq> None" using Cons.prems(1) by simp
    ultimately show ?thesis using Cons.IH[of ?s2] ok False by (simp add: trigger_pass_Cons)
  qed
qed

text \<open>A pass either returns or stops at the first call that raises.\<close>

lemma trigger_pass_cases:
  assumes "on_off_events s e \<noteq> None"
  shows "(\<exists>s'. trigger_pass beh e args xs s = Inr s') \<or>
         (\<exists>done a todo s1 err. xs = done @ a # todo \<and>
            trigger_pass beh e args done s = Inr s1 \<and>
            trigger_pass beh e args xs s = Inl (err, called s1 a args))"
  using assms
proof (induction xs arbitrary: s)
  case Nil
  then show ?case by simp
next
  case (Cons a xs)
  show ?case
  proof (cases "beh (trace s) (callback (deref s a)) args")
    case (Some err)
    then have "trigger_pass beh e args (a # xs) s = Inl (err, called s a args)"
      by (simp add: trigger_pass_Cons)
    moreover have "trigger_pass beh e args [] s = Inr s" by simp
    ultimately have "\<exists>done b todo s1 err. a # xs = done @ b # todo \<and>
            trigger_pass beh e args done s = Inr s1 \<and>
            trigger_pass beh e args (a # xs) s = Inl (err, called s1 b args)"
      by (metis append_Nil)
    then show ?thesis by blast
  next
    case None
    let ?s2 = "pass_round s e a args"
    have present: "on_off_events ?s2 e \<noteq> None"
      using round_of_pass_round[of s e a args] Cons.prems by (simp add: round_of_def)
    have first: "trigger_pass beh e args [a] s = Inr ?s2"
      using None Cons.prems
      by (auto simp: trigger_pass_Cons pass_round_def off_Str split: option.splits)
    have step: "trigger_pass beh e args (a # xs) s = trigger_pass beh e args xs ?s2"
      using None Cons.prems
      by (auto simp: trigger_pass_Cons pass_round_def off_Str split: option.splits)
    from Cons.IH[OF present] show ?thesis
    proof
      assume "\<exists>s'. trigger_pass beh e args xs ?s2 = Inr s'"
      then show ?thesis using step by simp
    next
      assume "\<exists>done b todo s1 err. xs = done @ b # todo \<and>
            trigger_pass beh e args done ?s2 = Inr s1 \<and>
            trigger_pass beh e args xs ?s2 = Inl (err, called s1 b args)"
      then obtain dn b todo s1 err where h: "xs = dn @ b # todo"
        "trigger_pass beh e args dn ?s2 = Inr s1"
        "trigger_pass beh e args xs ?s2 = Inl (err, called s1 b args)" by blast
      have "trigger_pass beh e args (a # dn) s = Inr s1"
        using h(2) None Cons.prems
        by (auto simp: trigger_pass_Cons pass_round_def off_Str split: option.splits)
      moreover have "a # xs = (a # dn) @ b # todo" using h(1) by simp
      ultimately have "\<exists>done b todo s1 err. a # xs = done @ b # todo \<and>
            trigger_pass beh e args done s = Inr s1 \<and>
            trigger_pass beh e args (a # xs) s = Inl (err, called s1 b args)"
        using h(3) step by metis
      then show ?thesis by blast
    qed
  qed
qed

lemma trigger_loop_append:
  "trigger_loop beh pre args s0 = Inr s \<Longrightarrow>
   trigger_loop beh (pre @ post) args s0 = trigger_loop beh post args s"
  by (induction pre arbitrary: s0) (auto split: option.splits sum.splits)

lemma trigger_single_returned:
  assumes "trigger_loop beh [e] args s = Inr s'"
  shows "trigger_pass beh e args (listeners s e) s = Inr s'"
  using assms by (auto simp: listeners_def split: option.splits sum.splits)

lemma trigger_loop_Cons_returned:
  assumes "trigger_loop beh (x # es) args s = Inr s'"
  shows "\<exists>s1. trigger_loop beh [x] args s = Inr s1 \<and> trigger_loop beh es args s1 = Inr s' \<and>
           (on_off_events s x = None \<longrightarrow> s1 = s) \<and>
           (on_off_events s x \<noteq> None \<longrightarrow> trigger_pass beh x args (listeners s x) s = Inr s1)"
  using assms by (auto simp: listeners_def split: option.splits sum.splits)

lemma count_list_distinct: "distinct xs \<Longrightarrow> count_list xs b = (if b \<in> set xs then 1 else 0)"
  by (induction xs) auto

lemma trigger_pass_unlimited:
  assumes "trigger_pass beh e args xs s = Inr s'"
    and "\<forall>a\<in>set xs. times_limit (deref s a) = None"
  shows "on_off_events s' = on_off_events s"
  using assms
proof (induction xs arbitrary: s)
  case Nil
  then show ?case by simp
next
  case (Cons a xs)
  from Cons.prems have t: "times_limit (deref s a) = None" by simp
  from Cons.prems(1) have p: "trigger_pass beh e args xs (counted s a args) = Inr s'"
    by (simp add: trigger_pass_Cons t split: option.splits)
  have "\<forall>b\<in>set xs. times_limit (deref (counted s a args) b) = None"
    using Cons.prems(2) by simp
  from Cons.IH[OF p this] show ?case by simp
qed

section \<open>What a trigger takes off the lists\<close>

text \<open>
  During a \<^verbatim>\<open>trigger\<close> that started in a well-formed state \<open>s0\<close>, the list of every
  event is its list in \<open>s0\<close> without the objects struck by an object that has reached
  its limit, and the state stays well-formed.
\<close>

lemma filtered_refl: "wf s \<Longrightarrow> filtered s s"
proof -
  assume wf: "wf s"
  have "\<And>e a. \<not> struck s s e a"
    unfolding struck_def using wf_not_reached[OF wf] by blast
  then show ?thesis by (simp add: filtered_def)
qed

lemma filtered_subset: "filtered s0 s \<Longrightarrow> a \<in> set (listeners s e) \<Longrightarrow> a \<in> set (listeners s0 e)"
  by (simp add: filtered_def)

lemma filtered_called: "filtered s0 s \<Longrightarrow> filtered s0 (called s a args)"
  by (simp add: filtered_def struck_def)

lemma filtered_pass_round:
  assumes wf0: "wf s0" and f: "filtered s0 s" and a: "a \<in> set (listeners s0 e)"
    and nr: "\<not> reached_limit (deref s a)" and nn: "0 \<le> calls (deref s a)"
  shows "filtered s0 (pass_round s e a args)"
proof -
  let ?s2 = "pass_round s e a args"
  note r = round_of_pass_round[of s e a args, unfolded round_of_def]
  have cb: "\<And>b. callback (deref ?s2 b) = callback (deref s0 b)"
    using r f by (simp add: filtered_def)
  have der: "\<And>b. b \<noteq> a \<Longrightarrow> deref ?s2 b = deref s b"
    using r by (simp add: deref_counted)
  have cbs: "\<And>b. callback (deref s b) = callback (deref s0 b)" using f by (simp add: filtered_def)
  have lists: "listeners ?s2 e' = filter (\<lambda>x. \<not> struck s0 ?s2 e' x) (listeners s0 e')" for e'
  proof (cases "e' = e")
    case False
    have "\<And>b. b \<in> set (listeners s0 e') \<Longrightarrow> b \<noteq> a"
      using wf_disjoint[OF wf0 a] False by blast
    then have "\<And>x. struck s0 ?s2 e' x = struck s0 s e' x"
      unfolding struck_def using der by (metis (no_types, lifting))
    moreover have "listeners ?s2 e' = listeners s e'" using r False by simp
    ultimately show ?thesis using f by (simp add: filtered_def)
  next
    case True
    show ?thesis
    proof (cases "Some (calls (deref s a) + 1) = times_limit (deref s a)")
      case ex: True
      have ra: "reached_limit (deref ?s2 a)"
        using r ex nn by (simp add: reached_limit_def deref_counted)
      have st: "struck s0 ?s2 e x = (callback (deref s0 a) = callback (deref s0 x) \<or> struck s0 s e x)" for x
      proof
        assume "struck s0 ?s2 e x"
        then obtain b where b: "b \<in> set (listeners s0 e)"
          "callback (deref s0 b) = callback (deref s0 x)" "reached_limit (deref ?s2 b)"
          unfolding struck_def by blast
        show "callback (deref s0 a) = callback (deref s0 x) \<or> struck s0 s e x"
        proof (cases "b = a")
          case True
          then show ?thesis using b by simp
        next
          case False
          then have "reached_limit (deref s b)" using b(3) der by simp
          then show ?thesis using b unfolding struck_def by blast
        qed
      next
        assume h: "callback (deref s0 a) = callback (deref s0 x) \<or> struck s0 s e x"
        show "struck s0 ?s2 e x"
        proof (cases "callback (deref s0 a) = callback (deref s0 x)")
          case True
          then show ?thesis unfolding struck_def using a ra by blast
        next
          case False
          with h obtain b where b: "b \<in> set (listeners s0 e)"
            "callback (deref s0 b) = callback (deref s0 x)" "reached_limit (deref s b)"
            unfolding struck_def by blast
          then have "b \<noteq> a" using nr by auto
          then have "reached_limit (deref ?s2 b)" using b(3) der by simp
          then show ?thesis unfolding struck_def using b by blast
        qed
      qed
      have "listeners ?s2 e = filter (\<lambda>b. callback (deref s b) \<noteq> callback (deref s a)) (listeners s e)"
        using r ex by simp
      also have "\<dots> = filter (\<lambda>b. callback (deref s0 b) \<noteq> callback (deref s0 a))
                         (filter (\<lambda>x. \<not> struck s0 s e x) (listeners s0 e))"
        using f by (simp add: filtered_def cbs)
      also have "\<dots> = filter (\<lambda>x. \<not> struck s0 ?s2 e x) (listeners s0 e)"
        by (simp add: st) (metis (mono_tags, lifting) filter_cong)
      finally show ?thesis using True by simp
    next
      case nex: False
      have "\<not> reached_limit (deref ?s2 a)"
        using r nex by (simp add: reached_limit_def deref_counted)
      then have "\<And>b. reached_limit (deref ?s2 b) = reached_limit (deref s b)"
        using nr der by (metis (full_types))
      then have "\<And>x. struck s0 ?s2 e x = struck s0 s e x"
        unfolding struck_def by simp
      moreover have "listeners ?s2 e = listeners s e" using r nex by simp
      ultimately show ?thesis using f True by (simp add: filtered_def)
    qed
  qed
  have "nxt ?s2 = nxt s0" using r f by (simp add: filtered_def)
  then show ?thesis unfolding filtered_def using cb lists by blast
qed

lemma pass_ready_round:
  assumes wf0: "wf s0" and q: "pass_ready s0 s e (a # xs)"
  shows "pass_ready s0 (pass_round s e a args) e xs"
proof -
  from q have wf: "wf s" and f: "filtered s0 s" and d: "distinct (a # xs)"
    and a: "a \<in> set (listeners s0 e)" "\<not> reached_limit (deref s a)"
    and xs: "\<forall>b\<in>set xs. b \<in> set (listeners s0 e) \<and> \<not> reached_limit (deref s b)"
    by (simp_all add: pass_ready_def)
  have an: "a < nxt s" using wf_bound[OF wf0 a(1)] f by (simp add: filtered_def)
  have other: "a \<notin> set (listeners s e')" if "e' \<noteq> e" for e'
  proof
    assume "a \<in> set (listeners s e')"
    then have "a \<in> set (listeners s0 e')" by (rule filtered_subset[OF f])
    from wf_disjoint[OF wf0 this a(1)] that show False by simp
  qed
  have 1: "wf (pass_round s e a args)" by (rule wf_pass_round[OF wf an a(2) other])
  have 2: "filtered s0 (pass_round s e a args)"
    by (rule filtered_pass_round[OF wf0 f a(1) a(2) wf_calls_nonneg[OF wf an]])
  have 3: "\<forall>b\<in>set xs. b \<in> set (listeners s0 e) \<and> \<not> reached_limit (deref (pass_round s e a args) b)"
  proof
    fix b assume b: "b \<in> set xs"
    then have "b \<noteq> a" using d by auto
    then show "b \<in> set (listeners s0 e) \<and> \<not> reached_limit (deref (pass_round s e a args) b)"
      using xs b by (simp add: deref_pass_round)
  qed
  from 1 2 3 d show ?thesis by (simp add: pass_ready_def)
qed

lemma pass_ready_returned:
  assumes "wf s0" and "pass_ready s0 s e xs" and "trigger_pass beh e args xs s = Inr s'"
  shows "wf s' \<and> filtered s0 s'"
  using assms(2,3)
proof (induction xs arbitrary: s)
  case Nil
  then show ?case by (simp add: pass_ready_def)
next
  case (Cons a xs)
  from trigger_pass_Cons_returned(2)[OF Cons.prems(2)]
  have "trigger_pass beh e args xs (pass_round s e a args) = Inr s'" .
  from Cons.IH[OF pass_ready_round[OF assms(1) Cons.prems(1)] this] show ?case .
qed

lemma pass_ready_prefix: "pass_ready s0 s e (xs @ ys) \<Longrightarrow> pass_ready s0 s e xs"
  by (simp add: pass_ready_def)

lemma wf_filtered_pass:
  assumes "wf s0" and "pass_ready s0 s e xs" and "on_off_events s e \<noteq> None"
  shows "wf (state_of (trigger_pass beh e args xs s)) \<and>
         filtered s0 (state_of (trigger_pass beh e args xs s))"
proof -
  from trigger_pass_cases[OF assms(3), of beh args xs] show ?thesis
  proof
    assume "\<exists>s'. trigger_pass beh e args xs s = Inr s'"
    then obtain s' where s': "trigger_pass beh e args xs s = Inr s'" by blast
    from pass_ready_returned[OF assms(1,2) s'] s' show ?thesis by simp
  next
    assume "\<exists>done a todo s1 err. xs = done @ a # todo \<and>
            trigger_pass beh e args done s = Inr s1 \<and>
            trigger_pass beh e args xs s = Inl (err, called s1 a args)"
    then obtain dn a todo s1 err where h: "xs = dn @ a # todo"
      "trigger_pass beh e args dn s = Inr s1"
      "trigger_pass beh e args xs s = Inl (err, called s1 a args)" by blast
    have "pass_ready s0 s e dn" using assms(2) unfolding h(1) by (rule pass_ready_prefix)
    from pass_ready_returned[OF assms(1) this h(2)]
    show ?thesis using h(3) by (simp add: wf_called filtered_called)
  qed
qed

lemma wf_filtered_loop:
  assumes "wf s0" and "wf s" and "filtered s0 s"
  shows "wf (state_of (trigger_loop beh es args s)) \<and>
         filtered s0 (state_of (trigger_loop beh es args s))"
  using assms(2,3)
proof (induction es arbitrary: s)
  case Nil
  then show ?case by simp
next
  case (Cons e es)
  show ?case
  proof (cases "on_off_events s e")
    case None
    then show ?thesis using Cons by simp
  next
    case (Some xs)
    then have xs: "xs = listeners s e" by (simp add: listeners_def)
    have "pass_ready s0 s e xs"
      unfolding pass_ready_def xs
      using Cons.prems wf_distinct[OF Cons.prems(1)] wf_not_reached[OF Cons.prems(1)]
        filtered_subset[OF Cons.prems(2)] by blast
    from wf_filtered_pass[OF assms(1) this, of beh args] Some
    have p: "wf (state_of (trigger_pass beh e args xs s))"
      "filtered s0 (state_of (trigger_pass beh e args xs s))" by simp_all
    show ?thesis
    proof (cases "trigger_pass beh e args xs s")
      case (Inl x)
      then show ?thesis using p Some by (cases x) simp
    next
      case (Inr s1)
      then show ?thesis using p Some Cons.IH[of s1] by simp
    qed
  qed
qed

lemma wf_trigger_loop:
  assumes "wf s"
  shows "wf (state_of (trigger_loop beh es args s))"
  using wf_filtered_loop[OF assms assms filtered_refl[OF assms]] by simp

lemma trigger_filtered:
  assumes "wf s"
  shows "filtered s (state_of (trigger beh evs args s))"
  unfolding trigger_def using wf_filtered_loop[OF assms assms filtered_refl[OF assms]] by simp

lemma wf_step: "wf s \<Longrightarrow> wf (state_of (step beh c s))"
  by (cases c) (simp_all add: wf_on wf_off once_def trigger_def wf_trigger_loop)

lemma wf_run: "wf s \<Longrightarrow> wf (run beh cs s)"
  by (induction cs arbitrary: s) (simp_all add: wf_step)

lemma wf_reachable: "wf (run beh cs init)"
  by (rule wf_run[OF wf_init])

lemma trigger_loop_survivor:
  assumes "wf s" and "trigger_loop beh es args s = Inr s'" and "a \<in> set (listeners s' e)"
  shows "a \<in> set (listeners s e) \<and>
         calls (deref s' a) = calls (deref s a) + int (count_list es e)"
  using assms
proof (induction es arbitrary: s)
  case Nil
  then show ?case by simp
next
  case (Cons x es)
  from trigger_loop_Cons_returned[OF Cons.prems(2)] obtain s1 where
    s1: "trigger_loop beh [x] args s = Inr s1" "trigger_loop beh es args s1 = Inr s'"
    "on_off_events s x = None \<longrightarrow> s1 = s"
    "on_off_events s x \<noteq> None \<longrightarrow> trigger_pass beh x args (listeners s x) s = Inr s1"
    by (elim exE conjE) (rule that)
  have wf1: "wf s1" using wf_trigger_loop[OF Cons.prems(1), of beh "[x]" args] s1(1) by simp
  have f1: "filtered s s1"
    using wf_filtered_loop[OF Cons.prems(1) Cons.prems(1) filtered_refl[OF Cons.prems(1)], of beh "[x]" args]
      s1(1) by simp
  from Cons.IH[OF wf1 s1(2) Cons.prems(3)]
  have a1: "a \<in> set (listeners s1 e)"
    and c1: "calls (deref s' a) = calls (deref s1 a) + int (count_list es e)" by simp_all
  have a: "a \<in> set (listeners s e)" by (rule filtered_subset[OF f1 a1])
  have "calls (deref s1 a) = calls (deref s a) + (if x = e then 1 else 0)"
  proof (cases "on_off_events s x")
    case None
    then have "listeners s x = []" by (simp add: listeners_def)
    then have "x \<noteq> e" using a by auto
    then show ?thesis using s1(3) None by simp
  next
    case (Some xs)
    then have p: "trigger_pass beh x args (listeners s x) s = Inr s1" using s1(4) by simp
    have "a \<in> set (listeners s x) \<longleftrightarrow> x = e"
    proof
      assume "a \<in> set (listeners s x)"
      from wf_disjoint[OF Cons.prems(1) this a] show "x = e" .
    next
      assume "x = e"
      then show "a \<in> set (listeners s x)" using a by simp
    qed
    then show ?thesis
      using trigger_pass_returned[OF p] count_list_distinct[OF wf_distinct[OF Cons.prems(1)], of x a]
      by simp
  qed
  with a c1 show ?case by simp
qed

section \<open>Dispatch\<close>

text \<open>
  Claim C7. Let the names \<open>pre\<close> have been dispatched, leaving the state \<open>s\<close>, and let
  the list of the next name \<open>e\<close> be \<open>done @ a # todo\<close>, where the calls for \<open>done\<close>
  return and the call for \<open>a\<close> raises \<open>err\<close>. Then \<^verbatim>\<open>trigger\<close> raises \<open>err\<close> itself; the
  last call made is the one that raised, so neither \<open>todo\<close> nor any listener of the
  later names \<open>post\<close> is called; and the counters incremented for \<open>done\<close> (and for the
  names \<open>pre\<close>, already part of \<open>s\<close>) stay incremented, while the counter of \<open>a\<close> is not.
\<close>
theorem fault_stops_dispatch:
  assumes "trigger beh (Lst pre) args s0 = Inr s"
    and "listeners s e = done @ a # todo"
    and "returns_all beh (trace s) (invocations s args done)"
    and "beh (trace s @ invocations s args done) (callback (deref s a)) args = Some err"
  shows "\<exists>s'. trigger beh (Lst (pre @ e # post)) args s0 = Inl (err, s') \<and>
           trace s' = trace s @ invocations s args done @ [(callback (deref s a), args)] \<and>
           (\<forall>b. calls (deref s' b) = calls (deref s b) + int (count_list done b))"
proof -
  from assms(2) have xs: "on_off_events s e = Some (done @ a # todo)"
    by (auto simp: listeners_def split: option.splits)
  then have "on_off_events s e \<noteq> None" by simp
  from trigger_pass_prefix[OF this assms(3), of "a # todo"] obtain s1 where
    s1: "trigger_pass beh e args done s = Inr s1"
    "trigger_pass beh e args (done @ a # todo) s = trigger_pass beh e args (a # todo) s1"
    by blast
  note r = trigger_pass_returned[OF s1(1)]
  have "trigger_pass beh e args (a # todo) s1 = Inl (err, called s1 a args)"
    using assms(4) r by (simp add: trigger_pass_Cons)
  then have "trigger_loop beh (e # post) args s = Inl (err, called s1 a args)"
    using xs s1(2) by simp
  then have "trigger beh (Lst (pre @ e # post)) args s0 = Inl (err, called s1 a args)"
    using assms(1) by (simp add: trigger_def trigger_loop_append)
  moreover have "trace (called s1 a args) =
      trace s @ invocations s args done @ [(callback (deref s a), args)]"
    using r by simp
  moreover have "\<forall>b. calls (deref (called s1 a args) b) = calls (deref s b) + int (count_list done b)"
    using r by simp
  ultimately show ?thesis by blast
qed

theorem fault_stops_dispatch_witness:
  "\<exists>s'. trigger (raises_on 8) (Lst ([] @ ''e'' # [''f''])) ''x''
           (run quiet [On (Str ''e'') 7 None, On (Str ''e'') 8 None, On (Str ''e'') 9 None,
                       On (Str ''f'') 10 None] init)
         = Inl (Raised ''boom'', s')
       \<and> trace s' = [(7, ''x''), (8, ''x'')]
       \<and> calls (deref s' 0) = 1 \<and> calls (deref s' 1) = 0 \<and> calls (deref s' 2) = 0
       \<and> calls (deref s' 3) = 0"
proof -
  define s where "s = run quiet [On (Str ''e'') 7 None, On (Str ''e'') 8 None,
                       On (Str ''e'') 9 None, On (Str ''f'') 10 None] init"
  have h1: "trigger (raises_on 8) (Lst []) ''x'' s = Inr s" by (simp add: trigger_def)
  have h2: "listeners s ''e'' = [0] @ 1 # [2]" by (simp add: s_def eval_simps)
  have c: "callback (deref s 0) = 7" "callback (deref s (Suc 0)) = 8" "trace s = []"
    "calls (deref s 0) = 0" "calls (deref s (Suc 0)) = 0" "calls (deref s 2) = 0"
    "calls (deref s 3) = 0"
    by (simp_all add: s_def eval_simps)
  have h3: "returns_all (raises_on 8) (trace s) (invocations s ''x'' [0])"
    by (simp add: c raises_on_def)
  have h4: "raises_on 8 (trace s @ invocations s ''x'' [0]) (callback (deref s 1)) ''x''
              = Some (Raised ''boom'')"
    by (simp add: c raises_on_def)
  from fault_stops_dispatch[OF h1 h2 h3 h4, of "[''f'']"] obtain s' where
    s': "trigger (raises_on 8) (Lst ([] @ ''e'' # [''f''])) ''x'' s = Inl (Raised ''boom'', s')"
    "trace s' = trace s @ invocations s ''x'' [0] @ [(callback (deref s 1), ''x'')]"
    "\<forall>b. calls (deref s' b) = calls (deref s b) + int (count_list [0] b)"
    by blast
  from s'(2) have "trace s' = [(7, ''x''), (8, ''x'')]" by (simp add: c)
  moreover from s'(3) have "calls (deref s' 0) = 1" "calls (deref s' 1) = 0"
    "calls (deref s' 2) = 0" "calls (deref s' 3) = 0" by (simp_all add: c)
  ultimately show ?thesis using s'(1) unfolding s_def by blast
qed

lemma run_no_trigger:
  "\<forall>c\<in>set cs. \<forall>evs args. c \<noteq> Trigger evs args \<Longrightarrow> run beh cs s = run beh' cs s"
proof (induction cs arbitrary: s)
  case Nil
  then show ?case by simp
next
  case (Cons c cs)
  then have "step beh c s = step beh' c s" by (cases c) auto
  with Cons show ?case by simp
qed

lemma run_reg: "run beh (map (\<lambda>cb. On (Str e) cb tm) cbs) s = reg e tm cbs s"
  unfolding reg_def by (rule run_no_trigger) auto

lemma run_registrations:
  shows "listeners (reg e tm cbs s) e = listeners s e @ [nxt s..<nxt s + length cbs] \<and>
         nxt (reg e tm cbs s) = nxt s + length cbs \<and>
         trace (reg e tm cbs s) = trace s \<and>
         (\<forall>a<nxt s. deref (reg e tm cbs s) a = deref s a) \<and>
         (\<forall>i<length cbs. deref (reg e tm cbs s) (nxt s + i) =
             \<lparr>callback = cbs ! i, times_limit = tm, calls = 0\<rparr>)"
proof (induction cbs arbitrary: s)
  case Nil
  then show ?case by (simp add: reg_def)
next
  case (Cons cb cbs)
  let ?obj = "\<lparr>callback = cb, times_limit = tm, calls = 0\<rparr>"
  let ?s1 = "setdefault_append e ?obj s"
  have step: "reg e tm (cb # cbs) s = reg e tm cbs ?s1" by (simp add: reg_def on_Str)
  note IH = Cons.IH[of ?s1]
  have l: "listeners (reg e tm (cb # cbs) s) e = listeners s e @ [nxt s..<nxt s + length (cb # cbs)]"
  proof -
    have "[nxt s..<nxt s + length (cb # cbs)] = nxt s # [Suc (nxt s)..<Suc (nxt s) + length cbs]"
      by (simp add: upt_conv_Cons del: upt_Suc)
    moreover have "listeners (reg e tm cbs ?s1) e = listeners ?s1 e @ [nxt ?s1..<nxt ?s1 + length cbs]"
      using IH by blast
    ultimately show ?thesis
      by (simp add: step listeners_setdefault_append nxt_setdefault_append del: upt_Suc)
  qed
  have n: "nxt (reg e tm (cb # cbs) s) = nxt s + length (cb # cbs)"
    using IH by (simp add: step nxt_setdefault_append)
  have t: "trace (reg e tm (cb # cbs) s) = trace s"
    using IH by (simp add: step trace_setdefault_append)
  have old: "\<forall>a<nxt s. deref (reg e tm (cb # cbs) s) a = deref s a"
    using IH by (simp add: step nxt_setdefault_append deref_setdefault_append)
  have new: "\<forall>i<length (cb # cbs). deref (reg e tm (cb # cbs) s) (nxt s + i) =
             \<lparr>callback = (cb # cbs) ! i, times_limit = tm, calls = 0\<rparr>"
  proof (intro allI impI)
    fix i assume i: "i < length (cb # cbs)"
    show "deref (reg e tm (cb # cbs) s) (nxt s + i) =
             \<lparr>callback = (cb # cbs) ! i, times_limit = tm, calls = 0\<rparr>"
    proof (cases i)
      case 0
      then show ?thesis using IH
        by (simp add: step nxt_setdefault_append deref_setdefault_append)
    next
      case (Suc j)
      then have "j < length cbs" using i by simp
      then show ?thesis using IH Suc
        by (simp add: step nxt_setdefault_append)
    qed
  qed
  from l n t old new show ?case by blast
qed

lemma reg_listeners: "listeners (reg e tm cbs s) e = listeners s e @ [nxt s..<nxt s + length cbs]"
  using run_registrations[of e tm cbs s] by blast

lemma reg_trace: "trace (reg e tm cbs s) = trace s"
  using run_registrations[of e tm cbs s] by blast

lemma reg_deref_new:
  "i < length cbs \<Longrightarrow>
   deref (reg e tm cbs s) (nxt s + i) = \<lparr>callback = cbs ! i, times_limit = tm, calls = 0\<rparr>"
  using run_registrations[of e tm cbs s] by blast

lemma reg_deref_init:
  "i < length cbs \<Longrightarrow>
   deref (reg e tm cbs init) i = \<lparr>callback = cbs ! i, times_limit = tm, calls = 0\<rparr>"
  by (rule reg_deref_new[where s = init, simplified])

lemma invocations_registrations:
  assumes "\<forall>i<length cbs. callback (deref s (n + i)) = cbs ! i"
  shows "invocations s args [n..<n + length cbs] = map (\<lambda>cb. (cb, args)) cbs"
proof (rule nth_equalityI)
  show "length (invocations s args [n..<n + length cbs]) = length (map (\<lambda>cb. (cb, args)) cbs)"
    by (simp add: invocations_def)
next
  fix i assume "i < length (invocations s args [n..<n + length cbs])"
  then have i: "i < length cbs" by (simp add: invocations_def)
  then show "invocations s args [n..<n + length cbs] ! i = map (\<lambda>cb. (cb, args)) cbs ! i"
    using assms by (simp add: invocations_def)
qed

text \<open>
  Claim C4. Register the callbacks of a list \<open>cbs\<close>, in order, each with its own
  \<^verbatim>\<open>on(e, cb)\<close> call without a limit, on a new object. If their calls return, one
  \<^verbatim>\<open>trigger(e, args)\<close> returns and has called exactly these callbacks, in the order of
  registration, each with \<open>args\<close>. A callback that occurs twice in \<open>cbs\<close> has two
  objects of its own (the list of the event has one entry per registration) and is
  called twice; every object has afterwards been called once, and all stay registered.
\<close>
theorem registration_order_dispatch:
  assumes "returns_all beh [] (map (\<lambda>cb. (cb, args)) cbs)"
  shows "\<exists>s'. trigger beh (Str e) args (run beh (map (\<lambda>cb. On (Str e) cb None) cbs) init) = Inr s'
           \<and> trace s' = map (\<lambda>cb. (cb, args)) cbs
           \<and> listeners s' e = [0..<length cbs]
           \<and> (\<forall>i<length cbs. calls (deref s' i) = 1)"
proof -
  define s where "s = run beh (map (\<lambda>cb. On (Str e) cb None) cbs) init"
  have sr: "s = reg e None cbs init" unfolding s_def by (rule run_reg)
  have l: "listeners s e = [0..<length cbs]" and t: "trace s = []"
    and d: "\<forall>i<length cbs. deref s i = \<lparr>callback = cbs ! i, times_limit = None, calls = 0\<rparr>"
    unfolding sr by (simp_all add: reg_listeners reg_trace reg_deref_init)
  have inv: "invocations s args [0..<length cbs] = map (\<lambda>cb. (cb, args)) cbs"
    using invocations_registrations[of cbs s 0 args] d by simp
  show ?thesis
  proof (cases "on_off_events s e")
    case None
    then have "listeners s e = []" by (simp add: listeners_def)
    then have "length [0..<length cbs] = 0" using l by simp
    then have "cbs = []" by simp
    moreover have "trigger beh (Str e) args s = Inr s" using None by (simp add: trigger_def)
    ultimately show ?thesis unfolding s_def[symmetric] using t l by simp
  next
    case (Some xs)
    then have xs: "xs = [0..<length cbs]" using l by (simp add: listeners_def)
    have "returns_all beh (trace s) (invocations s args xs)"
      using assms by (simp add: t xs inv)
    from trigger_pass_prefix[of s e beh args xs "[]"] Some this obtain s'
      where s': "trigger_pass beh e args xs s = Inr s'" by auto
    note r = trigger_pass_returned[OF s']
    have "\<forall>a\<in>set xs. times_limit (deref s a) = None" using d by (simp add: xs)
    from trigger_pass_unlimited[OF s' this] have "listeners s' e = listeners s e"
      by (simp add: listeners_def)
    moreover have "\<forall>i<length cbs. calls (deref s' i) = 1"
      using r d by (simp add: xs count_list_distinct)
    moreover have "trace s' = map (\<lambda>cb. (cb, args)) cbs" using r by (simp add: t xs inv)
    moreover have "trigger beh (Str e) args s = Inr s'"
      using Some s' by (simp add: trigger_def split: sum.splits)
    ultimately show ?thesis unfolding s_def[symmetric] using l by simp
  qed
qed

theorem registration_order_dispatch_witness:
  "\<exists>s'. trigger quiet (Str ''e'') ''x''
           (run quiet (map (\<lambda>cb. On (Str ''e'') cb None) [7, 8, 7]) init) = Inr s'
       \<and> trace s' = [(7, ''x''), (8, ''x''), (7, ''x'')]
       \<and> listeners s' ''e'' = [0, 1, 2]
       \<and> calls (deref s' 0) = 1 \<and> calls (deref s' 1) = 1 \<and> calls (deref s' 2) = 1"
proof -
  have h: "returns_all quiet [] (map (\<lambda>cb. (cb, ''x'')) [7, 8, 7])"
    by (simp add: quiet_def)
  from registration_order_dispatch[OF h, of "''e''"] obtain s' where
    s': "trigger quiet (Str ''e'') ''x''
           (run quiet (map (\<lambda>cb. On (Str ''e'') cb None) [7, 8, 7]) init) = Inr s'"
    "trace s' = map (\<lambda>cb. (cb, ''x'')) [7, 8, 7]"
    "listeners s' ''e'' = [0..<length [7, 8, 7 :: nat]]"
    "\<forall>i<length [7, 8, 7 :: nat]. calls (deref s' i) = 1"
    by blast
  from s'(3) have l: "listeners s' ''e'' = [0, 1, 2]" by (simp add: upt_rec)
  from s'(4) have "calls (deref s' 0) = 1" "calls (deref s' 1) = 1" "calls (deref s' 2) = 1"
    by simp_all
  with s'(1,2) l show ?thesis by auto
qed

text \<open>
  Claim C5. After \<^verbatim>\<open>on(e, cb, 3)\<close> on a new object, the first three \<^verbatim>\<open>trigger(e)\<close>
  calls each call \<open>cb\<close> once, with the arguments of that call; the third takes the
  callback off the event, and the fourth returns without calling anything and without
  changing the object. The only assumption is that the three calls of \<open>cb\<close> return.
\<close>
theorem limit_three_fires_three_times:
  assumes "returns_all beh [] [(cb, a1), (cb, a2), (cb, a3)]"
  shows "\<exists>s1 s2 s3.
           trigger beh (Str e) a1 (on (Str e) cb (Some 3) init) = Inr s1 \<and>
           trace s1 = [(cb, a1)] \<and> listeners s1 e = [0] \<and>
           trigger beh (Str e) a2 s1 = Inr s2 \<and>
           trace s2 = [(cb, a1), (cb, a2)] \<and> listeners s2 e = [0] \<and>
           trigger beh (Str e) a3 s2 = Inr s3 \<and>
           trace s3 = [(cb, a1), (cb, a2), (cb, a3)] \<and>
           on_off_events s3 e = Some [] \<and> calls (deref s3 0) = 3 \<and>
           trigger beh (Str e) a4 s3 = Inr s3"
proof -
  from assms have b: "beh [] cb a1 = None" "beh [(cb, a1)] cb a2 = None"
    "beh [(cb, a1), (cb, a2)] cb a3 = None" by simp_all
  show ?thesis
    by (simp add: b on_def off_def trigger_def init_def setdefault_append_def
        trigger_pass.simps deref_def Let_def listeners_def)
qed

theorem limit_three_fires_three_times_witness:
  "\<exists>s1 s2 s3.
     trigger quiet (Str ''e'') ''1'' (on (Str ''e'') 7 (Some 3) init) = Inr s1 \<and>
     trace s1 = [(7, ''1'')] \<and> listeners s1 ''e'' = [0] \<and>
     trigger quiet (Str ''e'') ''2'' s1 = Inr s2 \<and>
     trace s2 = [(7, ''1''), (7, ''2'')] \<and> listeners s2 ''e'' = [0] \<and>
     trigger quiet (Str ''e'') ''3'' s2 = Inr s3 \<and>
     trace s3 = [(7, ''1''), (7, ''2''), (7, ''3'')] \<and>
     on_off_events s3 ''e'' = Some [] \<and> calls (deref s3 0) = 3 \<and>
     trigger quiet (Str ''e'') ''4'' s3 = Inr s3"
proof -
  have h: "returns_all quiet [] [(7, ''1''), (7, ''2''), (7, ''3'')]"
    by (simp add: quiet_def)
  from limit_three_fires_three_times[OF h] show ?thesis .
qed

section \<open>Limits\<close>

text \<open>
  Claim C1, amended. What takes a callback object off its event is \<^verbatim>\<open>off\<close>, and
  \<^verbatim>\<open>trigger\<close> calls \<^verbatim>\<open>self.off(event, callback_obj['callback'])\<close> when an object reaches
  its limit, which takes every object with an equal callback off the event, whatever
  its own limit. In a state that a client can reach:
  \<^item> \<^verbatim>\<open>on\<close> only appends to the lists;
  \<^item> after \<^verbatim>\<open>trigger\<close>, returned or raised, the list of every event is its list before
    without the objects whose callback equals the callback of an object of that list
    that has reached its limit; the others stay, in their order;
  \<^item> if \<^verbatim>\<open>trigger\<close> returns, an object still listed for an event has been called once
    for every occurrence of the event among the names triggered.
  So a listener without a limit stays registered and is called by every \<^verbatim>\<open>trigger\<close> of
  its event until it is taken off by \<^verbatim>\<open>off\<close> or until an object of the same event with
  an equal callback reaches its limit.
\<close>
theorem auto_removal_is_by_callback:
  assumes "s = run beh cs init"
  shows "(\<exists>ys. listeners (on evs' cb tm s) e = listeners s e @ ys) \<and>
         listeners (state_of (trigger beh evs args s)) e =
           filter (\<lambda>a. \<not> struck s (state_of (trigger beh evs args s)) e a) (listeners s e) \<and>
         (\<forall>s'. trigger beh evs args s = Inr s' \<longrightarrow>
            (\<forall>a\<in>set (listeners s' e).
               calls (deref s' a) = calls (deref s a) + int (count_list (normalise evs) e)))"
proof -
  have wf: "wf s" unfolding assms by (rule wf_reachable)
  have 1: "\<exists>ys. listeners (on evs' cb tm s) e = listeners s e @ ys"
    unfolding on_def by (rule on_loop_appends)
  have 2: "listeners (state_of (trigger beh evs args s)) e =
           filter (\<lambda>a. \<not> struck s (state_of (trigger beh evs args s)) e a) (listeners s e)"
    using trigger_filtered[OF wf, of beh evs args] by (simp add: filtered_def)
  have 3: "\<forall>s'. trigger beh evs args s = Inr s' \<longrightarrow>
            (\<forall>a\<in>set (listeners s' e).
               calls (deref s' a) = calls (deref s a) + int (count_list (normalise evs) e))"
    using trigger_loop_survivor[OF wf, of beh "normalise evs" args] by (simp add: trigger_def)
  from 1 2 3 show ?thesis by blast
qed

theorem unlimited_listener_removed_counterexample:
  "times_limit (deref (run quiet [On (Str ''e'') 7 None, Once (Str ''e'') 7] init) 0) = None
   \<and> listeners (run quiet [On (Str ''e'') 7 None, Once (Str ''e'') 7] init) ''e'' = [0, 1]
   \<and> listeners (run quiet [On (Str ''e'') 7 None, Once (Str ''e'') 7,
                            Trigger (Str ''e'') ''x''] init) ''e'' = []
   \<and> trace (run quiet [On (Str ''e'') 7 None, Once (Str ''e'') 7,
                        Trigger (Str ''e'') ''x'', Trigger (Str ''e'') ''y''] init)
       = [(7, ''x''), (7, ''x'')]"
  by (simp add: eval_simps quiet_def)

theorem auto_removal_is_by_callback_witness:
  "listeners (state_of (trigger quiet (Str ''e'') ''x''
      (run quiet [On (Str ''e'') 7 None, Once (Str ''e'') 7, On (Str ''e'') 8 None] init))) ''e'' = [2]
   \<and> calls (deref (state_of (trigger quiet (Str ''e'') ''x''
      (run quiet [On (Str ''e'') 7 None, Once (Str ''e'') 7, On (Str ''e'') 8 None] init))) 2) = 1"
proof -
  define s where "s = run quiet [On (Str ''e'') 7 None, Once (Str ''e'') 7, On (Str ''e'') 8 None] init"
  define s' where "s' = state_of (trigger quiet (Str ''e'') ''x'' s)"
  have r: "trigger quiet (Str ''e'') ''x'' s = Inr s'"
    by (simp add: s'_def s_def eval_simps quiet_def)
  note t = auto_removal_is_by_callback[OF s_def, of _ _ _ "''e''" "Str ''e''" "''x''"]
  have l: "listeners s ''e'' = [0, 1, 2]" by (simp add: s_def eval_simps)
  have cb: "callback (deref s 0) = 7" "callback (deref s (Suc 0)) = 7" "callback (deref s 2) = 8"
    "calls (deref s 2) = 0"
    by (simp_all add: s_def eval_simps)
  have rl: "\<not> reached_limit (deref s' 0)" "reached_limit (deref s' (Suc 0))"
    "\<not> reached_limit (deref s' 2)"
    by (simp_all add: s'_def s_def eval_simps quiet_def reached_limit_def)
  from t have "listeners s' ''e'' = filter (\<lambda>a. \<not> struck s s' ''e'' a) (listeners s ''e'')"
    unfolding s'_def by blast
  then have 1: "listeners s' ''e'' = [2]"
    by (simp add: l struck_def cb rl)
  from t r have "\<forall>a\<in>set (listeners s' ''e''). calls (deref s' a)
      = calls (deref s a) + int (count_list (normalise (Str ''e'')) ''e'')" by blast
  then have 2: "calls (deref s' 2) = 1" by (simp add: 1 cb)
  from 1 2 show ?thesis unfolding s'_def s_def by simp
qed

section \<open>Limits that are zero or negative\<close>

lemma sim_res_Inr [simp]: "sim_res (Inr s) (Inr u) = sim s u"
  by (simp add: sim_res_def)

lemma sim_res_Inl [simp]: "sim_res (Inl (err, s)) (Inl (err', u)) = (err' = err \<and> sim s u)"
  by (simp add: sim_res_def)

lemma sim_res_cases:
  assumes "sim_res r r'"
  obtains (returned) s u where "r = Inr s" "r' = Inr u" "sim s u"
  | (raised) err s u where "r = Inl (err, s)" "r' = Inl (err, u)" "sim s u"
proof (cases r)
  case (Inl x)
  obtain err s where x: "x = (err, s)" by (cases x)
  from assms Inl x obtain y where r': "r' = Inl y" by (cases r') (auto simp: sim_res_def)
  obtain err' u where y: "y = (err', u)" by (cases y)
  from assms Inl x r' y have "err' = err" "sim s u" by simp_all
  with Inl x r' y raised show ?thesis by simp
next
  case (Inr s)
  from assms Inr obtain u where r': "r' = Inr u"
    by (cases r') (auto simp: sim_res_def split: prod.splits)
  with assms Inr returned show ?thesis by simp
qed

lemma sim_init: "sim init init"
  by (simp add: sim_def init_def)

lemma sim_deref:
  assumes "sim s u" and "heap s a \<noteq> None"
  shows "deref u a = erased (deref s a)" and "0 \<le> calls (deref s a)"
  using assms by (auto simp: sim_def deref_def)

lemma sim_callback: "sim s u \<Longrightarrow> callback (deref u a) = callback (deref s a)"
proof -
  assume s: "sim s u"
  then have h: "heap u a = map_option erased (heap s a)" by (simp add: sim_def)
  show ?thesis
  proof (cases "heap s a")
    case None
    then show ?thesis using h by (simp add: deref_def)
  next
    case (Some obj)
    then show ?thesis using h by (simp add: deref_def erased_def)
  qed
qed

lemma sim_calls: "sim s u \<Longrightarrow> calls (deref u a) = calls (deref s a)"
proof -
  assume s: "sim s u"
  then have h: "heap u a = map_option erased (heap s a)" by (simp add: sim_def)
  show ?thesis
  proof (cases "heap s a")
    case None
    then show ?thesis using h by (simp add: deref_def)
  next
    case (Some obj)
    then show ?thesis using h by (simp add: deref_def erased_def)
  qed
qed

lemma erase_limit: "0 < k \<Longrightarrow> (Some k = erase tm) = (Some k = tm)"
  by (auto simp: erase_def split: option.splits)

lemma erase_one: "erase (Some 1) = Some 1"
  by (simp add: erase_def)

lemma sim_setdefault_append:
  assumes "sim s u" and "calls obj = 0"
  shows "sim (setdefault_append e obj s) (setdefault_append e (erased obj) u)"
  using assms by (simp add: sim_def setdefault_append_def)

lemma sim_on_loop:
  "sim s u \<Longrightarrow> calls obj = 0 \<Longrightarrow> sim (on_loop es obj s) (on_loop es (erased obj) u)"
  by (induction es arbitrary: s u) (simp_all add: sim_setdefault_append)

lemma sim_on: "sim s u \<Longrightarrow> sim (on evs cb tm s) (on evs cb (erase tm) u)"
  using sim_on_loop[of s u "\<lparr>callback = cb, times_limit = tm, calls = 0\<rparr>" "normalise evs"]
  by (simp add: on_def erased_def)

lemma sim_once: "sim s u \<Longrightarrow> sim (once evs cb s) (once evs cb u)"
  using sim_on[of s u evs cb "Some 1"] by (simp add: once_def erase_one)

lemma sim_events_upd:
  "sim s u \<Longrightarrow> sim (s\<lparr>on_off_events := m\<rparr>) (u\<lparr>on_off_events := m\<rparr>)"
  by (simp add: sim_def)

lemma sim_off_loop: "sim s u \<Longrightarrow> sim_res (off_loop es cb s) (off_loop es cb u)"
proof (induction es arbitrary: s u)
  case Nil
  then show ?case by simp
next
  case (Cons x es)
  have ev: "on_off_events u = on_off_events s" using Cons.prems by (simp add: sim_def)
  show ?case
  proof (cases "on_off_events s x")
    case None
    then show ?thesis using ev Cons.prems by simp
  next
    case (Some xs)
    have flt: "filter (\<lambda>a. callback (deref u a) \<noteq> cb) xs = filter (\<lambda>a. callback (deref s a) \<noteq> cb) xs"
      by (simp add: sim_callback[OF Cons.prems])
    let ?m = "(on_off_events s)(x \<mapsto> filter (\<lambda>a. callback (deref s a) \<noteq> cb) xs)"
    have "sim (s\<lparr>on_off_events := ?m\<rparr>) (u\<lparr>on_off_events := ?m\<rparr>)"
      by (rule sim_events_upd[OF Cons.prems])
    from Cons.IH[OF this] show ?thesis using Some ev flt by simp
  qed
qed

lemma sim_off: "sim s u \<Longrightarrow> sim_res (off evs cb s) (off evs cb u)"
  by (simp add: off_def sim_off_loop)

lemma sim_called: "sim s u \<Longrightarrow> sim (called s a args) (called u a args)"
  by (simp add: sim_def called_def sim_callback)

lemma sim_counted:
  assumes "sim s u" and "heap s a \<noteq> None"
  shows "sim (counted s a args) (counted u a args)"
proof -
  from sim_deref[OF assms] have d: "deref u a = erased (deref s a)" "0 \<le> calls (deref s a)" .
  have cb: "callback (deref u a) = callback (deref s a)" by (rule sim_callback[OF assms(1)])
  show ?thesis
    using assms(1) d cb unfolding sim_def counted_def called_def
    by (auto simp: erased_def)
qed

lemma heap_off_Str: "off (Str e) cb s = Inr s3 \<Longrightarrow> heap s3 = heap s"
  by (rule off_Str_Inr(1))

lemma sim_trigger_pass:
  assumes "sim s u" and "\<forall>a\<in>set xs. heap s a \<noteq> None"
  shows "sim_res (trigger_pass beh e args xs s) (trigger_pass beh e args xs u)"
  using assms
proof (induction xs arbitrary: s u)
  case Nil
  then show ?case by simp
next
  case (Cons a xs)
  from Cons.prems have al: "heap s a \<noteq> None" and rest: "\<forall>b\<in>set xs. heap s b \<noteq> None" by simp_all
  note d = sim_deref[OF Cons.prems(1) al]
  have cb: "callback (deref u a) = callback (deref s a)" by (rule sim_callback[OF Cons.prems(1)])
  have cl: "calls (deref u a) = calls (deref s a)" by (rule sim_calls[OF Cons.prems(1)])
  have tr: "trace u = trace s" using Cons.prems(1) by (simp add: sim_def)
  have tm: "times_limit (deref u a) = erase (times_limit (deref s a))"
    using d(1) by (simp add: erased_def)
  have cond: "(Some (calls (deref u a) + 1) = times_limit (deref u a))
              = (Some (calls (deref s a) + 1) = times_limit (deref s a))"
    unfolding cl tm using d(2) by (intro erase_limit) simp
  have sc: "sim (counted s a args) (counted u a args)" by (rule sim_counted[OF Cons.prems(1) al])
  have rest2: "\<forall>b\<in>set xs. heap (counted s a args) b \<noteq> None"
    using rest heap_counted_None[of s a args] by blast
  show ?case
  proof (cases "beh (trace s) (callback (deref s a)) args")
    case (Some err)
    then show ?thesis
      by (simp add: trigger_pass_Cons cb tr sim_called[OF Cons.prems(1)])
  next
    case None
    show ?thesis
    proof (cases "Some (calls (deref s a) + 1) = times_limit (deref s a)")
      case True
      from sim_off[OF sc, of "Str e" "callback (deref s a)"]
      have "sim_res (off (Str e) (callback (deref s a)) (counted s a args))
                    (off (Str e) (callback (deref s a)) (counted u a args))" .
      then show ?thesis
      proof (cases rule: sim_res_cases)
        case (returned s3 u3)
        have "\<forall>b\<in>set xs. heap s3 b \<noteq> None" using rest2 heap_off_Str[OF returned(1)] by simp
        from Cons.IH[OF returned(3) this] show ?thesis
          using None True cond returned by (simp add: trigger_pass_Cons cb tr)
      next
        case (raised err s3 u3)
        then show ?thesis using None True cond by (simp add: trigger_pass_Cons cb tr)
      qed
    next
      case False
      from Cons.IH[OF sc rest2] show ?thesis
        using None False cond by (simp add: trigger_pass_Cons cb tr)
    qed
  qed
qed

lemma sim_trigger_loop:
  assumes "wf s" and "sim s u"
  shows "sim_res (trigger_loop beh es args s) (trigger_loop beh es args u)"
  using assms
proof (induction es arbitrary: s u)
  case Nil
  then show ?case by simp
next
  case (Cons e es)
  have ev: "on_off_events u = on_off_events s" using Cons.prems(2) by (simp add: sim_def)
  show ?case
  proof (cases "on_off_events s e")
    case None
    then show ?thesis using ev Cons by simp
  next
    case (Some xs)
    then have xs: "xs = listeners s e" by (simp add: listeners_def)
    have al: "\<forall>a\<in>set xs. heap s a \<noteq> None"
      unfolding xs using wf_bound[OF Cons.prems(1)] wf_alloc[OF Cons.prems(1)] by blast
    have wf1: "wf (state_of (trigger_pass beh e args xs s))"
      using wf_trigger_loop[OF Cons.prems(1), of beh "[e]" args] Some
      by (simp split: sum.splits)
    from sim_trigger_pass[OF Cons.prems(2) al, of beh e args] show ?thesis
    proof (cases rule: sim_res_cases)
      case (returned s1 u1)
      from wf1 returned(1) have "wf s1" by simp
      from Cons.IH[OF this returned(3)] show ?thesis using Some ev returned by simp
    next
      case (raised err s1 u1)
      then show ?thesis using Some ev by simp
    qed
  qed
qed

lemma sim_step:
  assumes "wf s" and "sim s u"
  shows "sim_res (step beh c s) (step beh (unbounded c) u)"
proof (cases c)
  case (On evs cb tm)
  then show ?thesis using sim_on[OF assms(2)] by simp
next
  case (Off evs cb)
  then show ?thesis using sim_off[OF assms(2)] by simp
next
  case (Once evs cb)
  then show ?thesis using sim_once[OF assms(2)] by simp
next
  case (Trigger evs args)
  then show ?thesis using sim_trigger_loop[OF assms] by (simp add: trigger_def)
qed

lemma sim_run:
  assumes "wf s" and "sim s u"
  shows "sim (run beh cs s) (run beh (map unbounded cs) u) \<and>
         outcomes beh (map unbounded cs) u = outcomes beh cs s"
  using assms
proof (induction cs arbitrary: s u)
  case Nil
  then show ?case by simp
next
  case (Cons c cs)
  have r: "sim_res (step beh c s) (step beh (unbounded c) u)" by (rule sim_step[OF Cons.prems])
  have "wf (state_of (step beh c s))" by (rule wf_step[OF Cons.prems(1)])
  from Cons.IH[OF this] r show ?case by (simp add: sim_res_def)
qed

text \<open>
  Claim C9, amended. A \<^verbatim>\<open>times\<close> that is zero or negative never takes effect: the
  counter is compared with it only after it has been incremented, and it starts at
  zero. For every client, replacing every such \<^verbatim>\<open>times\<close> by \<^verbatim>\<open>None\<close> changes neither
  what each call raises, nor the dictionary of lists, nor the calls made, nor any
  callback or counter of an object. Such a listener is thus exactly as persistent as
  one without a limit, which is what claim C1, amended, describes.
\<close>
theorem nonpositive_times_is_unbounded:
  "outcomes beh (map unbounded cs) init = outcomes beh cs init \<and>
   on_off_events (run beh (map unbounded cs) init) = on_off_events (run beh cs init) \<and>
   trace (run beh (map unbounded cs) init) = trace (run beh cs init) \<and>
   callback (deref (run beh (map unbounded cs) init) a) = callback (deref (run beh cs init) a) \<and>
   calls (deref (run beh (map unbounded cs) init) a) = calls (deref (run beh cs init) a)"
proof -
  from sim_run[OF wf_init sim_init, of beh cs]
  have s: "sim (run beh cs init) (run beh (map unbounded cs) init)"
    and o: "outcomes beh (map unbounded cs) init = outcomes beh cs init" by simp_all
  from s o sim_callback[OF s] sim_calls[OF s] show ?thesis by (simp add: sim_def)
qed

theorem nonpositive_times_is_unbounded_witness:
  "trace (run quiet (map unbounded [On (Str ''e'') 7 (Some 0), On (Str ''e'') 8 (Some (- 2)),
                                     Trigger (Str ''e'') ''x'', Trigger (Str ''e'') ''y'']) init)
     = [(7, ''x''), (8, ''x''), (7, ''y''), (8, ''y'')]
   \<and> trace (run quiet [On (Str ''e'') 7 (Some 0), On (Str ''e'') 8 (Some (- 2)),
                       Trigger (Str ''e'') ''x'', Trigger (Str ''e'') ''y''] init)
     = [(7, ''x''), (8, ''x''), (7, ''y''), (8, ''y'')]
   \<and> on_off_events (run quiet [On (Str ''e'') 7 (Some 0), On (Str ''e'') 8 (Some (- 2)),
                       Trigger (Str ''e'') ''x'', Trigger (Str ''e'') ''y''] init) ''e'' = Some [0, 1]"
proof -
  let ?cs = "[On (Str ''e'') 7 (Some 0), On (Str ''e'') 8 (Some (- 2)),
              Trigger (Str ''e'') ''x'', Trigger (Str ''e'') ''y'']"
  have u: "trace (run quiet (map unbounded ?cs) init)
             = [(7, ''x''), (8, ''x''), (7, ''y''), (8, ''y'')]"
    "on_off_events (run quiet (map unbounded ?cs) init) ''e'' = Some [0, 1]"
    by (simp_all add: eval_simps quiet_def erase_def)
  from nonpositive_times_is_unbounded[of quiet ?cs 0] u show ?thesis by metis
qed

theorem nonpositive_times_removed_counterexample:
  "times_limit (deref (run quiet [On (Str ''e'') 7 (Some 0), Once (Str ''e'') 7] init) 0) = Some 0
   \<and> listeners (run quiet [On (Str ''e'') 7 (Some 0), Once (Str ''e'') 7] init) ''e'' = [0, 1]
   \<and> listeners (run quiet [On (Str ''e'') 7 (Some 0), Once (Str ''e'') 7,
                            Trigger (Str ''e'') ''x''] init) ''e'' = []
   \<and> trace (run quiet [On (Str ''e'') 7 (Some 0), Once (Str ''e'') 7,
                        Trigger (Str ''e'') ''x'', Trigger (Str ''e'') ''y''] init)
       = [(7, ''x''), (7, ''x'')]"
  by (simp add: eval_simps quiet_def)

section \<open>The second model: its invariant\<close>













subsection \<open>Appending a callback object\<close>










subsection \<open>Rebinding an entry\<close>










section \<open>The second model: the list under iteration\<close>


















subsection \<open>Scripts without trigger\<close>













subsection \<open>The end of a round\<close>

lemma list_of_log [simp]: "list_of (s\<lparr>log := x\<rparr>) l = list_of s l"
  by (simp add: list_of_def)

lemma obj_of_log [simp]: "obj_of (s\<lparr>log := x\<rparr>) a = obj_of s a"
  by (simp add: obj_of_def)

lemma listeners_log [simp]: "listeners_re (s\<lparr>log := x\<rparr>) e = listeners_re s e"
  by (simp add: listeners_re_def split: option.splits)

lemma sound_log [simp]: "sound (s\<lparr>log := x\<rparr>) = sound s"
  by (simp add: sound_def)

lemma pinv_log [simp]: "pinv (s\<lparr>log := x\<rparr>) e L i = pinv s e L i"
  by (simp add: pinv_def)

lemma entries_bump [simp]: "entries (bump a s) = entries s"
  by (simp add: bump_def)

lemma list_of_bump [simp]: "list_of (bump a s) l = list_of s l"
  by (simp add: bump_def list_of_def)

lemma listeners_bump [simp]: "listeners_re (bump a s) e = listeners_re s e"
  by (simp add: listeners_re_def split: option.splits)

lemma nxt_obj_bump [simp]: "nxt_obj (bump a s) = nxt_obj s"
  by (simp add: bump_def)

lemma nxt_list_bump [simp]: "nxt_list (bump a s) = nxt_list s"
  by (simp add: bump_def)

lemma log_bump [simp]: "log (bump a s) = log s"
  by (simp add: bump_def)










section \<open>The second model: passes, loops and clients\<close>









section \<open>Dispatch when callbacks call back\<close>




section \<open>Limits when callbacks call back\<close>




end
